theory Spec2Isabelle
  imports Complex_Main "HOL-Library.Multiset" "HOL-Library.Log_Nat"
begin

section \<open>Explained variance of a PCA model: \<open>percvar\<close> and \<open>perck\<close>\<close>

text \<open>
  The notebook \<^verbatim>\<open>Activity-dr-1-sol.ipynb\<close> defines two functions over NumPy vectors:
  \<^verbatim>\<open>
  def percvar(v):
      # sort values
      s = np.sort(np.abs(v))
      # reverse sorting order
      s = s[::-1]
      # normalize
      s = s/np.sum(s)
      return s, np.cumsum(s)

  def perck(s, p):
      for i in range(len(s)):
          if s[i] >= p:
              return i+1  # human readable number of features
      return len(s)
  \<close>
  The vectors hold IEEE 754 binary64 numbers, as the eigenvalues and singular values of the
  notebook do. The model keeps their arithmetic: every sum and every quotient is the exact
  real result rounded to the nearest binary64 number, ties to the even mantissa, with
  gradual underflow and with overflow to infinity. Under NumPy's default error state a
  division by zero raises nothing: it yields \<open>nan\<close> (for \<open>0/0\<close>) or an infinity, and a
  warning is printed. The two zeros of binary64 are one value here; the sign of a zero
  plays no part in \<open>percvar\<close>, whose divisor is a sum of absolute values.
\<close>

subsection \<open>Binary64 numbers and rounding\<close>

text \<open>
  A finite binary64 number is \<open>Val x\<close> for a real \<open>x\<close> that rounding leaves unchanged
  (\<open>is_double x\<close>); \<open>PInf\<close>, \<open>NInf\<close> and \<open>NaN\<close> are the infinities and \<open>nan\<close>.
\<close>

datatype npfloat = Val real | PInf | NInf | NaN

text \<open>The exception classes the specification names. Neither function raises one.\<close>

datatype error = InvalidInput | DivisionByZero

text \<open>\<open>ilog2 x\<close> is \<open>\<lfloor>log\<^sub>2 x\<rfloor>\<close> for \<open>x > 0\<close>, computed on integers.\<close>

definition ilog2 :: "real \<Rightarrow> int" where
  "ilog2 x = (if 1 \<le> x then bitlen \<lfloor>x\<rfloor> - 1 else - bitlen (\<lceil>1 / x\<rceil> - 1))"

text \<open>
  The exponent of the unit in the last place of \<open>x\<close>: 52 below the exponent of \<open>x\<close> for
  a normal number, and \<open>-1074\<close> in the subnormal range.
\<close>

definition ulp_exp :: "real \<Rightarrow> int" where
  "ulp_exp x = max (- 1074) (ilog2 \<bar>x\<bar> - 52)"

text \<open>Rounding to the nearest integer, ties to the even one.\<close>

definition round_even :: "real \<Rightarrow> int" where
  "round_even q =
     (let n = \<lfloor>q\<rfloor>; r = q - of_int n
      in if r < 1/2 then n else if 1/2 < r then n + 1 else if even n then n else n + 1)"

text \<open>
  \<open>rnd x\<close> rounds \<open>x\<close> to 53 significant bits (fewer in the subnormal range) with no bound
  on the exponent from above; it is also the value of a decimal literal of the source.
  \<open>fl64\<close> adds the overflow to infinity: the result of a binary64 operation whose exact
  value is \<open>x\<close>.
\<close>

definition rnd :: "real \<Rightarrow> real" where
  "rnd x = (if x = 0 then 0
            else of_int (round_even (x / 2 powi ulp_exp x)) * 2 powi ulp_exp x)"

definition fl64 :: "real \<Rightarrow> npfloat" where
  "fl64 x =
     (let y = rnd x
      in if 2 ^ 1024 \<le> y then PInf else if y \<le> - (2 ^ 1024) then NInf else Val y)"

definition is_double :: "real \<Rightarrow> bool" where
  "is_double x \<longleftrightarrow> fl64 x = Val x"

text \<open>The smallest positive normal binary64 number.\<close>

definition min_normal :: real where
  "min_normal = 2 powi (- 1022)"

subsection \<open>Binary64 operations of NumPy\<close>

text \<open>\<^verbatim>\<open>a + b\<close>.\<close>

fun np_add :: "npfloat \<Rightarrow> npfloat \<Rightarrow> npfloat" where
  "np_add NaN b = NaN"
| "np_add a NaN = NaN"
| "np_add (Val a) (Val b) = fl64 (a + b)"
| "np_add PInf NInf = NaN"
| "np_add NInf PInf = NaN"
| "np_add PInf b = PInf"
| "np_add a PInf = PInf"
| "np_add NInf b = NInf"
| "np_add a NInf = NInf"

text \<open>
  \<^verbatim>\<open>a / b\<close> under the default error state (warn, do not raise). A zero divisor counts as
  \<open>+0.0\<close>.
\<close>

fun np_divide :: "npfloat \<Rightarrow> npfloat \<Rightarrow> npfloat" where
  "np_divide NaN d = NaN"
| "np_divide a NaN = NaN"
| "np_divide (Val x) (Val d) =
     (if d \<noteq> 0 then fl64 (x / d)
      else if x = 0 then NaN
      else if 0 < x then PInf
      else NInf)"
| "np_divide (Val x) PInf = Val 0"
| "np_divide (Val x) NInf = Val 0"
| "np_divide PInf (Val d) = (if 0 \<le> d then PInf else NInf)"
| "np_divide NInf (Val d) = (if 0 \<le> d then NInf else PInf)"
| "np_divide PInf b = NaN"
| "np_divide NInf b = NaN"

text \<open>\<^verbatim>\<open>a >= b\<close>: every comparison with \<open>nan\<close> is false.\<close>

fun np_ge :: "npfloat \<Rightarrow> npfloat \<Rightarrow> bool" where
  "np_ge NaN b = False"
| "np_ge a NaN = False"
| "np_ge (Val a) (Val b) = (b \<le> a)"
| "np_ge PInf b = True"
| "np_ge a NInf = True"
| "np_ge (Val a) PInf = False"
| "np_ge NInf b = False"

subsection \<open>\<open>np.sum\<close>\<close>

text \<open>
  \<^verbatim>\<open>np.sum\<close> of a one-dimensional vector is \<^verbatim>\<open>add.reduce\<close>, whose inner loop is NumPy's
  pairwise summation, over the elements in their logical order:
  \<^verbatim>\<open>
  pairwise_sum(a, n):
      if n < 8:
          res = 0.
          for i in 0 .. n-1: res += a[i]
          return res
      else if n <= 128:
          r[0..7] = a[0..7]
          for (i = 8; i < n - (n % 8); i += 8):
              r[j] += a[i + j]  for j in 0 .. 7
          res = ((r[0] + r[1]) + (r[2] + r[3])) + ((r[4] + r[5]) + (r[6] + r[7]))
          for (; i < n; i++): res += a[i]
          return res
      else:
          n2 = n / 2;  n2 -= n2 % 8
          return pairwise_sum(a, n2) + pairwise_sum(a + n2, n - n2)
  \<close>
  The reduction starts from the identity \<open>0.0\<close> of the addition. The loop is written once
  for every element type, as the template of NumPy is; \<open>np_sum\<close> is its binary64 instance.
\<close>

function unrolled :: "('a \<Rightarrow> 'a \<Rightarrow> 'a) \<Rightarrow> 'a list \<Rightarrow> 'a list \<Rightarrow> 'a list \<times> 'a list" where
  "unrolled add r a =
     (if 8 \<le> length a
      then unrolled add (map2 add r (take 8 a)) (drop 8 a)
      else (r, a))"
  by pat_completeness auto
termination
  by (relation "measure (\<lambda>(add, r, a). length a)") auto

declare unrolled.simps [simp del]

definition tree8 :: "('a \<Rightarrow> 'a \<Rightarrow> 'a) \<Rightarrow> 'a list \<Rightarrow> 'a" where
  "tree8 add r =
     add (add (add (r ! 0) (r ! 1)) (add (r ! 2) (r ! 3)))
         (add (add (r ! 4) (r ! 5)) (add (r ! 6) (r ! 7)))"

function pairwise_sum :: "('a \<Rightarrow> 'a \<Rightarrow> 'a) \<Rightarrow> 'a \<Rightarrow> 'a list \<Rightarrow> 'a" where
  "pairwise_sum add zero a =
     (if length a < 8 then foldl add zero a
      else if length a \<le> 128 then
        (case unrolled add (take 8 a) (drop 8 a) of
           (r, rest) \<Rightarrow> foldl add (tree8 add r) rest)
      else
        (let n2 = length a div 2 - (length a div 2) mod 8
         in add (pairwise_sum add zero (take n2 a)) (pairwise_sum add zero (drop n2 a))))"
  by pat_completeness auto
termination
  by (relation "measure (\<lambda>(add, zero, a). length a)") auto

declare pairwise_sum.simps [simp del]

definition np_sum :: "npfloat list \<Rightarrow> npfloat" where
  "np_sum s = np_add (Val 0) (pairwise_sum np_add (Val 0) s)"

subsection \<open>\<open>np.cumsum\<close>\<close>

text \<open>
  \<^verbatim>\<open>np.cumsum(s)\<close> is \<^verbatim>\<open>add.accumulate\<close>: the first entry is \<open>s[0]\<close>, every later
  entry is the previous result plus the next element.
\<close>

fun accumulate :: "npfloat \<Rightarrow> npfloat list \<Rightarrow> npfloat list" where
  "accumulate acc [] = []"
| "accumulate acc (x # xs) = np_add acc x # accumulate (np_add acc x) xs"

definition cumsum :: "npfloat list \<Rightarrow> npfloat list" where
  "cumsum s = (case s of [] \<Rightarrow> [] | x # xs \<Rightarrow> x # accumulate x xs)"

subsection \<open>\<open>percvar\<close>\<close>

text \<open>
  The input is a vector of finite binary64 numbers (\<open>is_double\<close> of every entry). \<open>np.abs\<close>
  is \<open>map abs\<close>, \<open>np.sort\<close> sorts ascending and \<open>s[::-1]\<close> reverses, all three without
  rounding; the quotient by \<open>np.sum(s)\<close> is taken entry by entry. None of these raises on
  a vector of numbers of any length, so the result is always \<open>Inr\<close>.
\<close>

definition percvar :: "real list \<Rightarrow> error + (npfloat list \<times> npfloat list)" where
  "percvar v =
     (let s = sort (map abs v);
          s = rev s;
          s = map (\<lambda>x. np_divide (Val x) (np_sum (map Val s))) s
      in Inr (s, cumsum s))"

subsection \<open>\<open>perck\<close>\<close>

text \<open>The \<^verbatim>\<open>for\<close> loop over \<open>range(len(s))\<close>, from index \<open>i\<close> on.\<close>

function perck_from :: "npfloat list \<Rightarrow> npfloat \<Rightarrow> nat \<Rightarrow> nat" where
  "perck_from s p i =
     (if i < length s
      then (if np_ge (s ! i) p then i + 1 else perck_from s p (i + 1))
      else length s)"
  by pat_completeness auto
termination
  by (relation "measure (\<lambda>(s, p, i). length s - i)") auto

declare perck_from.simps [simp del]

definition perck :: "npfloat list \<Rightarrow> npfloat \<Rightarrow> nat" where
  "perck s p = perck_from s p 0"

subsection \<open>Predicates used in the proofs\<close>

text \<open>A binary64 value that is not negative: a finite number \<open>\<ge> 0\<close> or \<open>+inf\<close>.\<close>

fun nonneg_float :: "npfloat \<Rightarrow> bool" where
  "nonneg_float (Val x) = (0 \<le> x \<and> is_double x)"
| "nonneg_float PInf = True"
| "nonneg_float NInf = False"
| "nonneg_float NaN = False"

text \<open>
  \<open>scaled k u w\<close> relates a value \<open>u\<close> of a summation to the value \<open>w\<close> at the same place
  of the summation of the vector scaled by \<open>k\<close>: \<open>w\<close> is \<open>k\<close> times \<open>u\<close>, both zero or
  normal, unless one of the two summations has overflowed.
\<close>

definition scaled :: "real \<Rightarrow> npfloat \<Rightarrow> npfloat \<Rightarrow> bool" where
  "scaled k u w \<longleftrightarrow>
     nonneg_float u \<and> nonneg_float w \<and>
     (u = PInf \<or> w = PInf \<or>
      (\<exists>x. u = Val x \<and> w = Val (k * x) \<and>
           (x = 0 \<or> min_normal \<le> x \<and> min_normal \<le> k * x)))"

section \<open>Rounding to binary64\<close>

subsection \<open>Exponents and rounding to an integer\<close>

lemma pow2_pos [simp]: "0 < (2::real) powi k"
  by (simp add: zero_less_power_int)

lemma pow2_mono: "j \<le> k \<Longrightarrow> (2::real) powi j \<le> 2 powi k"
  by (rule power_int_increasing) simp_all

lemma pow2_add: "(2::real) powi (j + k) = 2 powi j * 2 powi k"
  by (simp add: power_int_add)

lemma pow2_nat: "0 \<le> k \<Longrightarrow> (2::real) powi k = 2 ^ nat k"
  by (simp add: power_int_def)

lemma ilog2_bounds:
  assumes "0 < x"
  shows "2 powi ilog2 x \<le> x \<and> x < 2 powi (ilog2 x + 1)"
proof (cases "1 \<le> x")
  case True
  let ?n = "\<lfloor>x\<rfloor>"
  have n: "0 < ?n" using True by linarith
  from bitlen_bounds [OF n]
  have lo: "2 ^ nat (bitlen ?n - 1) \<le> ?n" and hi: "?n < 2 ^ nat (bitlen ?n)" by simp_all
  have b: "1 \<le> bitlen ?n" using n bitlen_eq_zero_iff [of ?n] bitlen_nonneg [of ?n] by linarith
  have k: "ilog2 x = bitlen ?n - 1" using True by (simp add: ilog2_def)
  have "(2::real) powi ilog2 x = of_int (2 ^ nat (bitlen ?n - 1))"
    using b by (simp add: k pow2_nat)
  also have "\<dots> \<le> of_int ?n" using lo by (simp only: of_int_le_iff)
  also have "\<dots> \<le> x" by simp
  finally have 1: "2 powi ilog2 x \<le> x" .
  have "?n + 1 \<le> 2 ^ nat (bitlen ?n)" using hi by linarith
  then have "(of_int (?n + 1) :: real) \<le> of_int (2 ^ nat (bitlen ?n))"
    by (simp only: of_int_le_iff)
  then have "of_int ?n + 1 \<le> (2::real) ^ nat (bitlen ?n)"
    by (simp only: of_int_add of_int_1 of_int_power of_int_numeral)
  moreover have "x < of_int ?n + 1" by linarith
  ultimately have "x < 2 ^ nat (bitlen ?n)" by linarith
  also have "\<dots> = 2 powi (ilog2 x + 1)"
    using b by (simp add: k pow2_nat)
  finally show ?thesis using 1 by simp
next
  case False
  let ?y = "1 / x"
  let ?m = "\<lceil>?y\<rceil> - 1"
  let ?b = "bitlen ?m"
  from False assms have y: "1 < ?y" by simp
  then have m: "0 < ?m" by linarith
  from bitlen_bounds [OF m]
  have lo: "2 ^ nat (?b - 1) \<le> ?m" and hi: "?m < 2 ^ nat ?b" by simp_all
  have b: "1 \<le> ?b" using m bitlen_eq_zero_iff [of ?m] bitlen_nonneg [of ?m] by linarith
  have k: "ilog2 x = - ?b" using False by (simp add: ilog2_def)
  have my: "of_int ?m < ?y" and ym: "?y \<le> of_int ?m + 1" by linarith+
  have "?m + 1 \<le> 2 ^ nat ?b" using hi by linarith
  then have "(of_int (?m + 1) :: real) \<le> of_int (2 ^ nat ?b)"
    by (simp only: of_int_le_iff)
  then have "of_int ?m + 1 \<le> (2::real) ^ nat ?b"
    by (simp only: of_int_add of_int_1 of_int_power of_int_numeral)
  with ym have "?y \<le> 2 ^ nat ?b" by linarith
  then have "1 \<le> 2 ^ nat ?b * x" using assms by (simp add: field_simps)
  then have 1: "2 powi ilog2 x \<le> x"
    using b by (simp add: k power_int_def field_simps)
  have "(of_int (2 ^ nat (?b - 1)) :: real) \<le> of_int ?m" using lo by (simp only: of_int_le_iff)
  then have "(2::real) ^ nat (?b - 1) \<le> of_int ?m"
    by (simp only: of_int_power of_int_numeral)
  with my have "2 ^ nat (?b - 1) < ?y" by linarith
  then have "2 ^ nat (?b - 1) * x < 1" using assms by (simp add: field_simps)
  then have 2: "x < 2 powi (ilog2 x + 1)"
  proof (cases "?b = 1")
    case True
    then show ?thesis using \<open>2 ^ nat (?b - 1) * x < 1\<close> by (simp add: k)
  next
    case False
    with b have "- ?b + 1 < 0" by simp
    moreover have "nat (?b - 1) = nat (- (- ?b + 1))" by simp
    ultimately show ?thesis using \<open>2 ^ nat (?b - 1) * x < 1\<close>
      by (simp add: k power_int_def field_simps)
  qed
  from 1 2 show ?thesis by simp
qed

lemma ilog2_unique:
  assumes "0 < x" and "2 powi k \<le> x" and "x < 2 powi (k + 1)"
  shows "ilog2 x = k"
proof (rule ccontr)
  assume ne: "ilog2 x \<noteq> k"
  from ilog2_bounds [OF assms(1)]
  have lo: "2 powi ilog2 x \<le> x" and hi: "x < 2 powi (ilog2 x + 1)" by simp_all
  show False
  proof (cases "ilog2 x < k")
    case True
    then have "(2::real) powi (ilog2 x + 1) \<le> 2 powi k" by (intro pow2_mono) simp
    with hi assms(2) show False by linarith
  next
    case False
    with ne have "k + 1 \<le> ilog2 x" by simp
    then have "(2::real) powi (k + 1) \<le> 2 powi ilog2 x" by (rule pow2_mono)
    with lo assms(3) show False by linarith
  qed
qed

lemma ilog2_mono:
  assumes "0 < x" and "x \<le> y"
  shows "ilog2 x \<le> ilog2 y"
proof (rule ccontr)
  assume "\<not> ilog2 x \<le> ilog2 y"
  then have "ilog2 y + 1 \<le> ilog2 x" by simp
  then have "(2::real) powi (ilog2 y + 1) \<le> 2 powi ilog2 x" by (rule pow2_mono)
  moreover from assms have "0 < y" by simp
  ultimately show False
    using ilog2_bounds [OF assms(1)] ilog2_bounds [OF \<open>0 < y\<close>] assms(2) by linarith
qed

lemma round_even_of_int [simp]: "round_even (of_int n) = n"
  by (simp add: round_even_def)

lemma round_even_bounds: "\<lfloor>q\<rfloor> \<le> round_even q \<and> round_even q \<le> \<lfloor>q\<rfloor> + 1"
  by (simp add: round_even_def Let_def)

lemma round_even_mono:
  assumes "q1 \<le> q2"
  shows "round_even q1 \<le> round_even q2"
proof (cases "\<lfloor>q1\<rfloor> = \<lfloor>q2\<rfloor>")
  case True
  with assms have "q1 - of_int \<lfloor>q1\<rfloor> \<le> q2 - of_int \<lfloor>q2\<rfloor>" by simp
  then show ?thesis
    using True by (auto simp: round_even_def Let_def)
next
  case False
  with assms have "\<lfloor>q1\<rfloor> + 1 \<le> \<lfloor>q2\<rfloor>"
    using floor_mono [OF assms] by linarith
  with round_even_bounds [of q1] round_even_bounds [of q2] show ?thesis by linarith
qed

lemma round_even_le: "q \<le> of_int n \<Longrightarrow> round_even q \<le> n"
  using round_even_mono [of q "of_int n"] by simp

lemma round_even_ge: "of_int n \<le> q \<Longrightarrow> n \<le> round_even q"
  using round_even_mono [of "of_int n" q] by simp

lemma round_even_minus: "round_even (- q) = - round_even q"
proof (cases "q = of_int \<lfloor>q\<rfloor>")
  case True
  define n where "n = \<lfloor>q\<rfloor>"
  have q: "q = of_int n" using True by (simp add: n_def)
  have "round_even (of_int (- n)) = - n" by (rule round_even_of_int)
  moreover have "of_int (- n) = - q" by (simp add: q)
  moreover have "round_even q = n" by (simp add: q)
  ultimately show ?thesis by metis
next
  case False
  then have fl: "\<lfloor>- q\<rfloor> = - \<lfloor>q\<rfloor> - 1"
    by (simp add: floor_minus ceiling_altdef)
  have "- q - of_int (- \<lfloor>q\<rfloor> - 1) = 1 - (q - of_int \<lfloor>q\<rfloor>)" by simp
  then show ?thesis
    unfolding round_even_def Let_def fl by auto
qed

subsection \<open>Properties of \<open>rnd\<close>\<close>

lemma ulp_exp_ge: "- 1074 \<le> ulp_exp x"
  by (simp add: ulp_exp_def)

lemma ulp_exp_minus [simp]: "ulp_exp (- x) = ulp_exp x"
  by (simp add: ulp_exp_def)

lemma ulp_exp_mono: "0 < x \<Longrightarrow> x \<le> y \<Longrightarrow> ulp_exp x \<le> ulp_exp y"
  using ilog2_mono [of x y] by (simp add: ulp_exp_def)

lemma less_pow2_ulp:
  assumes "0 < x"
  shows "x < 2 powi (ulp_exp x + 53)"
proof -
  have "ilog2 x + 1 \<le> ulp_exp x + 53" using assms by (simp add: ulp_exp_def)
  then have "(2::real) powi (ilog2 x + 1) \<le> 2 powi (ulp_exp x + 53)" by (rule pow2_mono)
  with ilog2_bounds [OF assms] show ?thesis by linarith
qed

lemma ge_pow2_ulp:
  assumes "0 < x" and "- 1074 < ulp_exp x"
  shows "2 powi (ulp_exp x + 52) \<le> x"
proof -
  have "ulp_exp x = ilog2 x - 52" using assms by (simp add: ulp_exp_def split: if_splits)
  then have "ulp_exp x + 52 = ilog2 x" by simp
  with ilog2_bounds [OF assms(1)] show ?thesis by simp
qed

lemma ulp_exp_eqI:
  assumes "0 < x" and "- 1074 \<le> e" and "x < 2 powi (e + 53)"
    and "- 1074 < e \<longrightarrow> 2 powi (e + 52) \<le> x"
  shows "ulp_exp x = e"
proof (cases "- 1074 < e")
  case True
  with assms have "ilog2 x = e + 52" by (intro ilog2_unique) (simp_all add: add.commute add.left_commute)
  with True assms(1) show ?thesis by (simp add: ulp_exp_def)
next
  case False
  with assms(2) have e: "e = - 1074" by simp
  have "ilog2 x < e + 53"
  proof (rule ccontr)
    assume "\<not> ilog2 x < e + 53"
    then have "(2::real) powi (e + 53) \<le> 2 powi ilog2 x" by (intro pow2_mono) simp
    with ilog2_bounds [OF assms(1)] assms(3) show False by linarith
  qed
  with e assms(1) show ?thesis by (simp add: ulp_exp_def)
qed

lemma mant_bounds:
  assumes "0 < x"
  shows "0 \<le> round_even (x / 2 powi ulp_exp x)"
    and "round_even (x / 2 powi ulp_exp x) \<le> 2 ^ 53"
    and "- 1074 < ulp_exp x \<Longrightarrow> 2 ^ 52 \<le> round_even (x / 2 powi ulp_exp x)"
proof -
  let ?e = "ulp_exp x"
  have "of_int 0 \<le> x / 2 powi ?e" using assms by simp
  then show "0 \<le> round_even (x / 2 powi ?e)" by (rule round_even_ge)
  have "x < 2 powi ?e * 2 ^ 53"
    using less_pow2_ulp [OF assms] by (simp add: pow2_add)
  then have "x / 2 powi ?e \<le> of_int (2 ^ 53)"
    by (simp add: field_simps)
  then show "round_even (x / 2 powi ?e) \<le> 2 ^ 53" by (rule round_even_le)
  assume "- 1074 < ?e"
  from ge_pow2_ulp [OF assms this] have "2 powi ?e * 2 ^ 52 \<le> x"
    by (simp add: pow2_add)
  then have "of_int (2 ^ 52) \<le> x / 2 powi ?e"
    by (simp add: field_simps)
  then show "2 ^ 52 \<le> round_even (x / 2 powi ?e)" by (rule round_even_ge)
qed

lemma rnd_0 [simp]: "rnd 0 = 0"
  by (simp add: rnd_def)

lemma rnd_minus: "rnd (- x) = - rnd x"
  by (simp add: rnd_def round_even_minus)

lemma rnd_nonneg: "0 \<le> x \<Longrightarrow> 0 \<le> rnd x"
proof (cases "x = 0")
  case True
  then show ?thesis by simp
next
  case False
  assume "0 \<le> x"
  with False have "0 < x" by simp
  from mant_bounds(1) [OF this] show ?thesis
    using False by (simp add: rnd_def)
qed

lemma rnd_mono:
  assumes "0 \<le> x" and "x \<le> y"
  shows "rnd x \<le> rnd y"
proof (cases "x = 0")
  case True
  from assms have "0 \<le> y" by simp
  from rnd_nonneg [OF this] True show ?thesis by simp
next
  case False
  with assms have x: "0 < x" and y: "0 < y" by simp_all
  let ?e1 = "ulp_exp x" and ?e2 = "ulp_exp y"
  let ?m1 = "round_even (x / 2 powi ?e1)" and ?m2 = "round_even (y / 2 powi ?e2)"
  have r1: "rnd x = of_int ?m1 * 2 powi ?e1" using x by (simp add: rnd_def)
  have r2: "rnd y = of_int ?m2 * 2 powi ?e2" using y by (simp add: rnd_def)
  have le: "?e1 \<le> ?e2" by (rule ulp_exp_mono [OF x assms(2)])
  show ?thesis
  proof (cases "?e1 = ?e2")
    case True
    have "x / 2 powi ?e2 \<le> y / 2 powi ?e2"
      using assms(2) by (simp add: divide_right_mono)
    then have "round_even (x / 2 powi ?e2) \<le> ?m2" by (rule round_even_mono)
    then have "(of_int (round_even (x / 2 powi ?e2)) :: real) \<le> of_int ?m2" by simp
    then have "of_int (round_even (x / 2 powi ?e2)) * (2::real) powi ?e2 \<le> of_int ?m2 * 2 powi ?e2"
      by (simp add: mult_right_mono)
    then show ?thesis unfolding r1 r2 True .
  next
    case False
    with le have lt: "?e1 + 1 \<le> ?e2" and sub: "- 1074 < ?e2"
      using ulp_exp_ge [of x] by simp_all
    have "(of_int ?m1 :: real) \<le> of_int (2 ^ 53)"
      using mant_bounds(2) [OF x] by (simp only: of_int_le_iff)
    then have "of_int ?m1 * 2 powi ?e1 \<le> (2 ^ 53 :: real) * 2 powi ?e1"
      by (simp add: mult_right_mono)
    also have "\<dots> = 2 powi (?e1 + 1 + 52)"
      by (simp add: pow2_add)
    also have "\<dots> \<le> 2 powi (?e2 + 52)"
      using lt by (intro pow2_mono) simp
    also have "\<dots> = (2 ^ 52 :: real) * 2 powi ?e2"
      by (simp add: pow2_add)
    also have "\<dots> \<le> of_int ?m2 * 2 powi ?e2"
    proof -
      have "(of_int (2 ^ 52) :: real) \<le> of_int ?m2"
        using mant_bounds(3) [OF y sub] by (simp only: of_int_le_iff)
      then show ?thesis by (simp add: mult_right_mono)
    qed
    finally show ?thesis unfolding r1 r2 .
  qed
qed

lemma rnd_idem_pos:
  assumes "0 < x"
  shows "rnd (rnd x) = rnd x"
proof -
  let ?e = "ulp_exp x"
  let ?m = "round_even (x / 2 powi ?e)"
  let ?y = "of_int ?m * (2::real) powi ?e"
  have r: "rnd x = ?y" using assms by (simp add: rnd_def)
  note mb = mant_bounds [OF assms]
  show ?thesis
  proof (cases "?m = 0")
    case True
    then show ?thesis by (simp add: r)
  next
    case False
    with mb(1) have mpos: "1 \<le> ?m" by simp
    then have "(of_int 1 :: real) \<le> of_int ?m" by (simp only: of_int_le_iff)
    then have ypos: "0 < ?y" by (simp add: zero_less_mult_iff)
    have ynz: "?y \<noteq> 0" using False by simp
    show ?thesis
    proof (cases "?m = 2 ^ 53")
      case True
      have y: "?y = 2 powi (?e + 1 + 52)" by (simp add: True pow2_add)
      have e: "ulp_exp ?y = ?e + 1"
      proof (rule ulp_exp_eqI [OF ypos])
        show "- 1074 \<le> ?e + 1" using ulp_exp_ge [of x] by simp
        show "?y < 2 powi (?e + 1 + 53)"
          unfolding y by (simp add: pow2_add)
        show "- 1074 < ?e + 1 \<longrightarrow> 2 powi (?e + 1 + 52) \<le> ?y"
          unfolding y by simp
      qed
      have "?y / 2 powi (?e + 1) = of_int (2 ^ 52)"
        by (simp add: True pow2_add)
      then have "round_even (?y / 2 powi (?e + 1)) = 2 ^ 52"
        by (simp only: round_even_of_int)
      moreover have "rnd ?y = of_int (round_even (?y / 2 powi ulp_exp ?y)) * 2 powi ulp_exp ?y"
        using ynz by (simp only: rnd_def if_False)
      ultimately have "rnd ?y = 2 ^ 52 * 2 powi (?e + 1)"
        by (simp only: e of_int_power of_int_numeral)
      also have "\<dots> = ?y" by (simp add: True pow2_add)
      finally show ?thesis by (simp only: r)
    next
      case False
      with mb(2) have mlt: "?m + 1 \<le> 2 ^ 53" by simp
      then have "(of_int (?m + 1) :: real) \<le> of_int (2 ^ 53)" by (simp only: of_int_le_iff)
      then have mlt': "(of_int ?m :: real) < 2 ^ 53" by simp
      have e: "ulp_exp ?y = ?e"
      proof (rule ulp_exp_eqI [OF ypos])
        show "- 1074 \<le> ?e" by (rule ulp_exp_ge)
        have "?y < 2 ^ 53 * 2 powi ?e" using mlt' by simp
        then show "?y < 2 powi (?e + 53)" by (simp add: pow2_add)
        show "- 1074 < ?e \<longrightarrow> 2 powi (?e + 52) \<le> ?y"
        proof
          assume "- 1074 < ?e"
          from mb(3) [OF this] have "(of_int (2 ^ 52) :: real) \<le> of_int ?m"
            by (simp only: of_int_le_iff)
          then have "(2 ^ 52 :: real) * 2 powi ?e \<le> ?y" by (simp add: mult_right_mono)
          then show "2 powi (?e + 52) \<le> ?y" by (simp add: pow2_add)
        qed
      qed
      have "?y / 2 powi ?e = of_int ?m" by simp
      then have "round_even (?y / 2 powi ulp_exp ?y) = ?m"
        by (simp only: e round_even_of_int)
      moreover have "rnd ?y = of_int (round_even (?y / 2 powi ulp_exp ?y)) * 2 powi ulp_exp ?y"
        using ynz by (simp only: rnd_def if_False)
      ultimately have "rnd ?y = ?y"
        by (simp only: e)
      then show ?thesis by (simp only: r)
    qed
  qed
qed

lemma rnd_idem [simp]: "rnd (rnd x) = rnd x"
proof (cases "0 < x")
  case True
  then show ?thesis by (rule rnd_idem_pos)
next
  case False
  show ?thesis
  proof (cases "x = 0")
    case True
    then show ?thesis by simp
  next
    case nz: False
    with False have "0 < - x" by simp
    from rnd_idem_pos [OF this] show ?thesis by (simp add: rnd_minus)
  qed
qed

lemma rnd_scale:
  assumes "2 powi (- 1022) \<le> x" and "2 powi (- 1022) \<le> 2 powi t * x"
  shows "rnd (2 powi t * x) = 2 powi t * rnd x"
proof -
  have x: "0 < x" using assms(1) pow2_pos [of "- 1022"] by linarith
  then have cx: "0 < 2 powi t * x" by simp
  have k1: "- 1022 \<le> ilog2 x"
  proof (rule ccontr)
    assume "\<not> - 1022 \<le> ilog2 x"
    then have "(2::real) powi (ilog2 x + 1) \<le> 2 powi (- 1022)" by (intro pow2_mono) simp
    with ilog2_bounds [OF x] assms(1) show False by linarith
  qed
  then have e1: "ulp_exp x = ilog2 x - 52" using x by (simp add: ulp_exp_def)
  have k2: "ilog2 (2 powi t * x) = t + ilog2 x"
  proof (rule ilog2_unique [OF cx])
    show "2 powi (t + ilog2 x) \<le> 2 powi t * x"
      using ilog2_bounds [OF x] by (simp add: pow2_add)
    have "2 powi t * x < 2 powi t * 2 powi (ilog2 x + 1)"
      using ilog2_bounds [OF x] by simp
    then show "2 powi t * x < 2 powi (t + ilog2 x + 1)"
      by (simp add: pow2_add [symmetric] add.assoc)
  qed
  have "- 1022 \<le> t + ilog2 x"
  proof (rule ccontr)
    assume "\<not> - 1022 \<le> t + ilog2 x"
    then have "(2::real) powi (t + ilog2 x + 1) \<le> 2 powi (- 1022)" by (intro pow2_mono) simp
    with ilog2_bounds [OF cx] assms(2) show False by (simp add: k2)
  qed
  then have e2: "ulp_exp (2 powi t * x) = t + ulp_exp x"
    using cx x k1 by (simp add: ulp_exp_def k2)
  have "2 powi t * x / 2 powi (t + ulp_exp x) = x / 2 powi ulp_exp x"
    by (simp add: pow2_add)
  then show ?thesis
    using x cx by (simp add: rnd_def e2 pow2_add)
qed

subsection \<open>Sums and order of non-negative binary64 values\<close>

lemma is_double_iff: "is_double x \<longleftrightarrow> rnd x = x \<and> \<bar>x\<bar> < 2 ^ 1024"
  by (auto simp: is_double_def fl64_def Let_def)

lemma is_double_0 [simp]: "is_double 0"
  by (simp add: is_double_iff)

lemma is_double_abs: "is_double x \<Longrightarrow> is_double \<bar>x\<bar>"
  by (cases "0 \<le> x") (auto simp: is_double_iff abs_if rnd_minus)

lemma fl64_double: "is_double x \<Longrightarrow> fl64 x = Val x"
  by (simp add: is_double_def)

lemma fl64_0 [simp]: "fl64 0 = Val 0"
  by (simp add: fl64_def)

lemma fl64_nonneg_cases:
  assumes "0 \<le> x"
  shows "fl64 x = PInf \<and> 2 ^ 1024 \<le> rnd x \<or> fl64 x = Val (rnd x) \<and> rnd x < 2 ^ 1024"
  using rnd_nonneg [OF assms] by (simp add: fl64_def Let_def)

lemma fl64_nonneg: "0 \<le> x \<Longrightarrow> nonneg_float (fl64 x)"
  using fl64_nonneg_cases [of x] rnd_nonneg [of x]
  by (auto simp: is_double_iff)

lemma fl64_mono:
  assumes "0 \<le> x" and "x \<le> y"
  shows "np_ge (fl64 y) (fl64 x)"
proof -
  from assms have y: "0 \<le> y" by simp
  from rnd_mono [OF assms] fl64_nonneg_cases [OF assms(1)] fl64_nonneg_cases [OF y]
  show ?thesis by auto
qed

lemma nonneg_float_cases:
  assumes "nonneg_float a"
  obtains x where "a = Val x" and "0 \<le> x" and "is_double x" | "a = PInf"
  using assms by (cases a) auto


lemma np_ge_refl: "nonneg_float a \<Longrightarrow> np_ge a a"
  by (cases a) auto

lemma np_ge_trans: "np_ge x b \<Longrightarrow> np_ge b a \<Longrightarrow> np_ge x a"
  by (cases x; cases b; cases a) simp_all

lemma np_add_nonneg:
  assumes "nonneg_float a" and "nonneg_float b"
  shows "nonneg_float (np_add a b)"
  using assms by (cases a; cases b) (auto intro: fl64_nonneg)

lemma np_add_ge_left:
  assumes "nonneg_float a" and "nonneg_float b"
  shows "np_ge (np_add a b) a"
proof (cases a)
  case (Val x)
  show ?thesis
  proof (cases b)
    case (Val y)
    with assms \<open>a = Val x\<close> have x: "0 \<le> x" "is_double x" and y: "0 \<le> y" by simp_all
    from fl64_mono [OF x(1), of "x + y"] y have "np_ge (fl64 (x + y)) (fl64 x)" by simp
    then show ?thesis using x(2) \<open>a = Val x\<close> Val by (simp add: fl64_double)
  qed (use assms \<open>a = Val x\<close> in auto)
qed (use assms in \<open>auto elim: nonneg_float_cases\<close>)

lemma np_add_ge_right:
  assumes "nonneg_float a" and "nonneg_float b"
  shows "np_ge (np_add a b) b"
proof (cases b)
  case (Val y)
  show ?thesis
  proof (cases a)
    case (Val x)
    with assms \<open>b = Val y\<close> have y: "0 \<le> y" "is_double y" and x: "0 \<le> x" by simp_all
    from fl64_mono [OF y(1), of "x + y"] x have "np_ge (fl64 (x + y)) (fl64 y)" by simp
    then show ?thesis using y(2) \<open>b = Val y\<close> Val by (simp add: fl64_double)
  qed (use assms \<open>b = Val y\<close> in auto)
qed (use assms in \<open>auto elim: nonneg_float_cases\<close>)

lemma np_add_0_left: "nonneg_float a \<Longrightarrow> np_add (Val 0) a = a"
  by (cases a) (auto simp: fl64_double)

lemma np_ge_PInf: "nonneg_float a \<Longrightarrow> np_ge PInf a"
  by (cases a) auto

section \<open>The pairwise summation\<close>

subsection \<open>Related inputs give related sums\<close>

lemma foldl_rel:
  assumes "list_all2 R xs ys" and "R a b"
    and step: "\<And>a b x y. R a b \<Longrightarrow> R x y \<Longrightarrow> R (f a x) (g b y)"
  shows "R (foldl f a xs) (foldl g b ys)"
  using assms(1,2)
proof (induction xs ys arbitrary: a b rule: list_all2_induct)
  case Nil
  then show ?case by simp
next
  case (Cons x xs y ys)
  from step [OF Cons.prems Cons.hyps(1)] have "R (f a x) (g b y)" .
  from Cons.IH [OF this] show ?case by simp
qed

lemma map2_rel:
  assumes "list_all2 R r r'" and "list_all2 R a a'"
    and step: "\<And>a b x y. R a b \<Longrightarrow> R x y \<Longrightarrow> R (f a x) (g b y)"
  shows "list_all2 R (map2 f r a) (map2 g r' a')"
  using assms(1,2)
proof (induction r r' arbitrary: a a' rule: list_all2_induct)
  case Nil
  then show ?case by simp
next
  case (Cons x xs y ys)
  show ?case
  proof (cases a)
    case Nil
    with Cons.prems show ?thesis by simp
  next
    case (Cons u us)
    with Cons.prems obtain w ws where a': "a' = w # ws" and uw: "R u w" and rest: "list_all2 R us ws"
      by (auto simp: list_all2_Cons1)
    from step [OF Cons.hyps(1) uw] Cons.IH [OF rest] show ?thesis
      by (simp add: Cons a')
  qed
qed

lemma unrolled_rel:
  assumes "list_all2 R r r'" and "list_all2 R a a'"
    and "\<And>a b x y. R a b \<Longrightarrow> R x y \<Longrightarrow> R (f a x) (g b y)"
  shows "list_all2 R (fst (unrolled f r a)) (fst (unrolled g r' a'))
       \<and> list_all2 R (snd (unrolled f r a)) (snd (unrolled g r' a'))"
  using assms
proof (induction f r a arbitrary: r' a' rule: unrolled.induct)
  case (1 add r a)
  note step = "1.prems"(3)
  from "1.prems"(2) have len: "length a' = length a" by (simp add: list_all2_lengthD)
  show ?case
  proof (cases "8 \<le> length a")
    case True
    have t: "list_all2 R (take 8 a) (take 8 a')" and d: "list_all2 R (drop 8 a) (drop 8 a')"
      using "1.prems"(2) by (simp_all add: list_all2_takeI list_all2_dropI)
    have m: "list_all2 R (map2 add r (take 8 a)) (map2 g r' (take 8 a'))"
      using "1.prems"(1) t step by (rule map2_rel)
    from "1.IH" [OF True m d step] True len show ?thesis
      by (simp add: unrolled.simps [of _ r a] unrolled.simps [of _ r' a'])
  next
    case False
    with len "1.prems" show ?thesis
      by (simp add: unrolled.simps [of _ r a] unrolled.simps [of _ r' a'])
  qed
qed

lemma unrolled_length:
  "length r = 8 \<Longrightarrow> length (fst (unrolled f r a)) = 8"
proof (induction f r a rule: unrolled.induct)
  case (1 add r a)
  show ?case
  proof (cases "8 \<le> length a")
    case True
    with "1.prems" have "length (map2 add r (take 8 a)) = 8" by simp
    from "1.IH" [OF True this] True show ?thesis
      by (simp add: unrolled.simps [of _ r a])
  next
    case False
    with "1.prems" show ?thesis by (simp add: unrolled.simps [of _ r a])
  qed
qed

lemma tree8_rel:
  assumes "list_all2 R r r'" and "length r = 8"
    and step: "\<And>a b x y. R a b \<Longrightarrow> R x y \<Longrightarrow> R (f a x) (g b y)"
  shows "R (tree8 f r) (tree8 g r')"
proof -
  have n: "R (r ! i) (r' ! i)" if "i < 8" for i
    using assms(1,2) that by (simp add: list_all2_nthD)
  show ?thesis
    unfolding tree8_def by (intro step n) simp_all
qed

lemma pairwise_sum_rel:
  assumes "list_all2 R a a'" and "R z z'"
    and "\<And>a b x y. R a b \<Longrightarrow> R x y \<Longrightarrow> R (f a x) (g b y)"
  shows "R (pairwise_sum f z a) (pairwise_sum g z' a')"
  using assms
proof (induction f z a arbitrary: a' rule: pairwise_sum.induct)
  case (1 add zero a)
  note step = "1.prems"(3)
  from "1.prems"(1) have len: "length a' = length a" by (simp add: list_all2_lengthD)
  show ?case
  proof (cases "length a < 8")
    case True
    from foldl_rel [of R a a', OF "1.prems"(1,2) step] True len show ?thesis
      by (simp add: pairwise_sum.simps [of _ _ a] pairwise_sum.simps [of _ _ a'])
  next
    case False
    show ?thesis
    proof (cases "length a \<le> 128")
      case True
      have t: "list_all2 R (take 8 a) (take 8 a')" and d: "list_all2 R (drop 8 a) (drop 8 a')"
        using "1.prems"(1) by (simp_all add: list_all2_takeI list_all2_dropI)
      from unrolled_rel [OF t d step]
      have r: "list_all2 R (fst (unrolled add (take 8 a) (drop 8 a))) (fst (unrolled g (take 8 a') (drop 8 a')))"
        and s: "list_all2 R (snd (unrolled add (take 8 a) (drop 8 a))) (snd (unrolled g (take 8 a') (drop 8 a')))"
        by simp_all
      have "length (take 8 a) = 8" using False by simp
      then have "length (fst (unrolled add (take 8 a) (drop 8 a))) = 8" by (rule unrolled_length)
      from tree8_rel [OF r this step]
      have "R (tree8 add (fst (unrolled add (take 8 a) (drop 8 a)))) (tree8 g (fst (unrolled g (take 8 a') (drop 8 a'))))" .
      from foldl_rel [of R, OF s this step] False True len show ?thesis
        by (simp add: pairwise_sum.simps [of _ _ a] pairwise_sum.simps [of _ _ a'] split_beta)
    next
      case big: False
      let ?n2 = "length a div 2 - (length a div 2) mod 8"
      have t: "list_all2 R (take ?n2 a) (take ?n2 a')" and d: "list_all2 R (drop ?n2 a) (drop ?n2 a')"
        using "1.prems"(1) by (simp_all add: list_all2_takeI list_all2_dropI)
      have 1: "R (pairwise_sum add zero (take ?n2 a)) (pairwise_sum g z' (take ?n2 a'))"
        using False big t "1.prems"(2) step by (intro "1.IH"(1)) simp_all
      have 2: "R (pairwise_sum add zero (drop ?n2 a)) (pairwise_sum g z' (drop ?n2 a'))"
        using False big d "1.prems"(2) step by (intro "1.IH"(2)) simp_all
      from step [OF 1 2] False big len show ?thesis
        by (simp add: pairwise_sum.simps [of _ _ a] pairwise_sum.simps [of _ _ a'] Let_def)
    qed
  qed
qed

subsection \<open>The sum in exact arithmetic and bounds of the binary64 sum\<close>

lemma foldl_plus_sum_list: "foldl (+) z xs = z + sum_list (xs :: 'a :: comm_monoid_add list)"
  by (induction xs arbitrary: z) (simp_all add: add.assoc)

lemma sum_list_map2_plus:
  "length r = length b \<Longrightarrow> sum_list (map2 (+) r b) = sum_list r + sum_list (b :: 'a :: comm_monoid_add list)"
  by (induction r b rule: list_induct2) (simp_all add: ac_simps)

lemma unrolled_sum_list:
  "length r = 8 \<Longrightarrow>
     sum_list (fst (unrolled (+) r a)) + sum_list (snd (unrolled (+) r a))
       = sum_list r + sum_list (a :: 'a :: comm_monoid_add list)"
proof (induction "(+) :: 'a \<Rightarrow> 'a \<Rightarrow> 'a" r a rule: unrolled.induct)
  case (1 r a)
  show ?case
  proof (cases "8 \<le> length a")
    case True
    with "1.prems" have l: "length r = length (take 8 a)" by simp
    then have "length (map2 (+) r (take 8 a)) = 8" using "1.prems" by simp
    from "1.hyps" [OF True this]
    have "sum_list (fst (unrolled (+) r a)) + sum_list (snd (unrolled (+) r a))
        = sum_list (map2 (+) r (take 8 a)) + sum_list (drop 8 a)"
      using True by (simp add: unrolled.simps [of _ r a])
    also have "\<dots> = sum_list r + (sum_list (take 8 a) + sum_list (drop 8 a))"
      by (simp add: sum_list_map2_plus [OF l] add.assoc)
    also have "sum_list (take 8 a) + sum_list (drop 8 a) = sum_list a"
      by (metis append_take_drop_id sum_list_append)
    finally show ?thesis .
  next
    case False
    then show ?thesis by (simp add: unrolled.simps [of _ r a])
  qed
qed

lemma tree8_sum_list:
  assumes "length r = 8"
  shows "tree8 (+) r = sum_list (r :: 'a :: comm_monoid_add list)"
proof -
  from assms obtain a b c d e f g h where "r = [a, b, c, d, e, f, g, h]"
    by (auto simp: eval_nat_numeral length_Suc_conv)
  then show ?thesis by (simp add: tree8_def ac_simps)
qed

lemma pairwise_sum_sum_list:
  "pairwise_sum (+) 0 a = sum_list (a :: 'a :: comm_monoid_add list)"
proof (induction "(+) :: 'a \<Rightarrow> 'a \<Rightarrow> 'a" "0 :: 'a" a rule: pairwise_sum.induct)
  case (1 a)
  show ?case
  proof (cases "length a < 8")
    case True
    then show ?thesis
      by (simp add: pairwise_sum.simps [of _ _ a] foldl_plus_sum_list)
  next
    case False
    show ?thesis
    proof (cases "length a \<le> 128")
      case True
      have l: "length (take 8 a) = 8" using False by simp
      have "pairwise_sum (+) 0 a
          = tree8 (+) (fst (unrolled (+) (take 8 a) (drop 8 a))) + sum_list (snd (unrolled (+) (take 8 a) (drop 8 a)))"
        using False True by (simp add: pairwise_sum.simps [of _ _ a] split_beta foldl_plus_sum_list)
      also have "\<dots> = sum_list (take 8 a) + sum_list (drop 8 a)"
        by (simp only: tree8_sum_list [OF unrolled_length [OF l]] unrolled_sum_list [OF l])
      also have "\<dots> = sum_list a"
        by (metis append_take_drop_id sum_list_append)
      finally show ?thesis .
    next
      case big: False
      let ?n2 = "length a div 2 - (length a div 2) mod 8"
      have "pairwise_sum (+) 0 a = pairwise_sum (+) 0 (take ?n2 a) + pairwise_sum (+) 0 (drop ?n2 a)"
        using False big by (simp add: pairwise_sum.simps [of _ _ a] Let_def)
      also have "\<dots> = sum_list (take ?n2 a) + sum_list (drop ?n2 a)"
        using False big "1.hyps" by simp
      also have "\<dots> = sum_list a"
        by (metis append_take_drop_id sum_list_append)
      finally show ?thesis .
    qed
  qed
qed

lemma sum_list_singletons: "sum_list (map (\<lambda>x. {#x#}) xs) = mset xs"
  by (induction xs) simp_all

lemma pairwise_sum_bounds:
  assumes "\<forall>x \<in> set a. nonneg_float x"
  shows "nonneg_float (pairwise_sum np_add (Val 0) a)
       \<and> (\<forall>x \<in> set a. np_ge (pairwise_sum np_add (Val 0) a) x)"
proof -
  let ?R = "\<lambda>u M. nonneg_float u \<and> (\<forall>x \<in># M. np_ge u x)"
  have "?R (pairwise_sum np_add (Val 0) a) (pairwise_sum (+) {#} (map (\<lambda>x. {#x#}) a))"
  proof (rule pairwise_sum_rel [where R = ?R])
    show "list_all2 ?R a (map (\<lambda>x. {#x#}) a)"
      using assms by (simp add: list_all2_conv_all_nth np_ge_refl)
    show "?R (Val 0) {#}" by simp
    fix u M x N assume 1: "?R u M" and 2: "?R x N"
    then have n: "nonneg_float u" "nonneg_float x" by simp_all
    have "np_ge (np_add u x) y" if "y \<in># M + N" for y
    proof (cases "y \<in># M")
      case True
      with 1 have "np_ge u y" by simp
      with np_add_ge_left [OF n] show ?thesis by (rule np_ge_trans)
    next
      case False
      with that have "y \<in># N" by simp
      with 2 have "np_ge x y" by simp
      with np_add_ge_right [OF n] show ?thesis by (rule np_ge_trans)
    qed
    with np_add_nonneg [OF n] show "?R (np_add u x) (M + N)" by simp
  qed
  then show ?thesis
    by (simp add: pairwise_sum_sum_list [where ?'a = "npfloat multiset", simplified] sum_list_singletons)
qed

lemma np_sum_pairwise:
  "\<forall>x \<in> set a. nonneg_float x \<Longrightarrow> np_sum a = pairwise_sum np_add (Val 0) a"
  using pairwise_sum_bounds [of a] by (simp add: np_sum_def np_add_0_left)

lemma np_sum_nonneg: "\<forall>x \<in> set a. nonneg_float x \<Longrightarrow> nonneg_float (np_sum a)"
  using pairwise_sum_bounds [of a] by (simp add: np_sum_pairwise)

lemma np_sum_ge: "\<forall>x \<in> set a. nonneg_float x \<Longrightarrow> x \<in> set a \<Longrightarrow> np_ge (np_sum a) x"
  using pairwise_sum_bounds [of a] by (simp add: np_sum_pairwise)

lemma np_sum_zeros: "\<forall>x \<in> set a. x = Val 0 \<Longrightarrow> np_sum a = Val 0"
proof -
  assume z: "\<forall>x \<in> set a. x = Val 0"
  let ?R = "\<lambda>u (w :: npfloat). u = Val 0"
  have "?R (pairwise_sum np_add (Val 0) a) (pairwise_sum np_add (Val 0) a)"
  proof (rule pairwise_sum_rel [where R = ?R])
    show "list_all2 ?R a a" using z by (simp add: list_all2_conv_all_nth)
  qed simp_all
  then show ?thesis by (simp add: np_sum_def)
qed

section \<open>Properties of \<open>perck\<close>\<close>

lemma perck_from_Cons: "perck_from (x # xs) p (Suc i) = Suc (perck_from xs p i)"
proof (induction xs p i rule: perck_from.induct)
  case (1 s p i)
  show ?case
  proof (cases "i < length s")
    case True
    then show ?thesis
      using "1.IH" by (simp add: perck_from.simps [of "x # s" p "Suc i"] perck_from.simps [of s p i])
  next
    case False
    then show ?thesis
      by (simp add: perck_from.simps [of "x # s" p "Suc i"] perck_from.simps [of s p i])
  qed
qed

lemma perck_Nil [simp]: "perck [] p = 0"
  by (simp add: perck_def perck_from.simps [of "[]"])

lemma perck_Cons [simp]:
  "perck (x # xs) p = (if np_ge x p then 1 else Suc (perck xs p))"
  by (simp add: perck_def perck_from.simps [of "x # xs" p 0] perck_from_Cons)

lemma perck_le_length: "perck s p \<le> length s"
  by (induction s) auto

lemma perck_none: "\<forall>x \<in> set s. \<not> np_ge x p \<Longrightarrow> perck s p = length s"
  by (induction s) auto

lemma perck_some:
  "\<exists>x \<in> set s. np_ge x p \<Longrightarrow>
     1 \<le> perck s p \<and> perck s p \<le> length s \<and> np_ge (s ! (perck s p - 1)) p
       \<and> (\<forall>j < perck s p - 1. \<not> np_ge (s ! j) p)"
proof (induction s)
  case Nil
  then show ?case by simp
next
  case (Cons x xs)
  show ?case
  proof (cases "np_ge x p")
    case True
    then show ?thesis by simp
  next
    case False
    with Cons.prems have ex: "\<exists>y \<in> set xs. np_ge y p" by auto
    note ih = Cons.IH [OF ex]
    from ih have pos: "1 \<le> perck xs p" by simp
    have "\<forall>j < perck xs p. \<not> np_ge ((x # xs) ! j) p"
    proof (intro allI impI)
      fix j assume j: "j < perck xs p"
      show "\<not> np_ge ((x # xs) ! j) p"
      proof (cases j)
        case 0
        with False show ?thesis by simp
      next
        case (Suc k)
        with j have "k < perck xs p - 1" by simp
        with ih Suc show ?thesis by simp
      qed
    qed
    moreover have "(x # xs) ! perck xs p = xs ! (perck xs p - 1)"
      using pos by (cases "perck xs p") simp_all
    ultimately show ?thesis
      using False ih by simp
  qed
qed

text \<open>
  Claim C2. For every vector \<open>s\<close> and every target \<open>p\<close> (in particular every fraction in
  \<open>[0,1]\<close>): when some entry of \<open>s\<close> is \<open>\<ge> p\<close>, \<open>perck s p\<close> is the smallest 1-based index
  \<open>k\<close> with \<open>s[k-1] \<ge> p\<close>, the bound being inclusive; when no entry is, \<open>perck s p\<close> is the
  length of \<open>s\<close>.
\<close>

theorem perck_smallest_index:
  "((\<exists>i < length s. np_ge (s ! i) p) \<longrightarrow>
      1 \<le> perck s p \<and> perck s p \<le> length s \<and> np_ge (s ! (perck s p - 1)) p
        \<and> (\<forall>k. 1 \<le> k \<and> k < perck s p \<longrightarrow> \<not> np_ge (s ! (k - 1)) p))
   \<and> (\<not> (\<exists>i < length s. np_ge (s ! i) p) \<longrightarrow> perck s p = length s)"
proof (intro conjI impI)
  assume "\<not> (\<exists>i < length s. np_ge (s ! i) p)"
  then have "\<forall>x \<in> set s. \<not> np_ge x p"
    by (auto simp: in_set_conv_nth)
  then show "perck s p = length s"
    by (rule perck_none)
next
  assume "\<exists>i < length s. np_ge (s ! i) p"
  then have ex: "\<exists>x \<in> set s. np_ge x p"
    using nth_mem by blast
  note some = perck_some [OF ex]
  from some show "1 \<le> perck s p" by simp
  from some show "perck s p \<le> length s" by simp
  from some show "np_ge (s ! (perck s p - 1)) p" by simp
  show "\<forall>k. 1 \<le> k \<and> k < perck s p \<longrightarrow> \<not> np_ge (s ! (k - 1)) p"
  proof (intro allI impI)
    fix k assume "1 \<le> k \<and> k < perck s p"
    then have "k - 1 < perck s p - 1" by arith
    with some show "\<not> np_ge (s ! (k - 1)) p" by blast
  qed
qed

theorem perck_smallest_index_witness:
  "(\<exists>i < length [Val (3/10), Val (1/2), Val (1/2), Val 1]. np_ge ([Val (3/10), Val (1/2), Val (1/2), Val 1] ! i) (Val (1/2)))
   \<and> perck [Val (3/10), Val (1/2), Val (1/2), Val 1] (Val (1/2)) = 2
   \<and> \<not> (\<exists>i < length [Val (3/10), Val (9/10)]. np_ge ([Val (3/10), Val (9/10)] ! i) (Val 1))
   \<and> perck [Val (3/10), Val (9/10)] (Val 1) = length [Val (3/10), Val (9/10)]"
proof -
  have a: "\<exists>i < length [Val (3/10), Val (1/2), Val (1/2), Val 1]. np_ge ([Val (3/10), Val (1/2), Val (1/2), Val 1] ! i) (Val (1/2))"
    by (rule exI [of _ 1]) simp
  have b: "\<not> (\<exists>i < length [Val (3/10), Val (9/10)]. np_ge ([Val (3/10), Val (9/10)] ! i) (Val 1))"
  proof
    assume "\<exists>i < length [Val (3/10), Val (9/10)]. np_ge ([Val (3/10), Val (9/10)] ! i) (Val 1)"
    then obtain i where i: "i < Suc (Suc 0)" and ge: "np_ge ([Val (3/10), Val (9/10)] ! i) (Val 1)"
      by auto
    from i have "i = 0 \<or> i = 1" by arith
    with ge show False by auto
  qed
  from perck_smallest_index [of "[Val (3/10), Val (1/2), Val (1/2), Val 1]" "Val (1/2)"] a
  have "perck [Val (3/10), Val (1/2), Val (1/2), Val 1] (Val (1/2)) = 2"
    by simp
  moreover from perck_smallest_index [of "[Val (3/10), Val (9/10)]" "Val 1"] b
  have "perck [Val (3/10), Val (9/10)] (Val 1) = length [Val (3/10), Val (9/10)]"
    by blast
  ultimately show ?thesis using a b by blast
qed

text \<open>
  Claim C10. \<open>perck\<close> is monotone in its target: for every vector \<open>s\<close> and targets
  \<open>p1 \<le> p2\<close> (that is, \<open>p2 >= p1\<close> holds), \<open>perck s p1 \<le> perck s p2\<close>; and the length of
  \<open>s\<close>, the value returned when no index qualifies, bounds every result for \<open>s\<close>.
\<close>

theorem perck_mono:
  "(np_ge p2 p1 \<longrightarrow> perck s p1 \<le> perck s p2) \<and> perck s p \<le> length s"
proof
  show "np_ge p2 p1 \<longrightarrow> perck s p1 \<le> perck s p2"
  proof
    assume le: "np_ge p2 p1"
    show "perck s p1 \<le> perck s p2"
      by (induction s) (auto dest: np_ge_trans [OF _ le])
  qed
  show "perck s p \<le> length s"
    by (rule perck_le_length)
qed

theorem perck_mono_witness:
  "np_ge (Val (4/5)) (Val (2/5))
   \<and> perck [Val (3/10), Val (1/2), Val 1] (Val (2/5)) = 2
   \<and> perck [Val (3/10), Val (1/2), Val 1] (Val (4/5)) = 3
   \<and> perck [Val (3/10), Val (1/2), Val 1] (Val (2/5)) \<le> perck [Val (3/10), Val (1/2), Val 1] (Val (4/5))"
  using perck_mono [of "Val (4/5)" "Val (2/5)" "[Val (3/10), Val (1/2), Val 1]" "Val 1"]
  by simp



section \<open>Properties of \<open>percvar\<close>\<close>

subsection \<open>The cumulative vector and the percents\<close>

lemma length_accumulate [simp]: "length (accumulate acc xs) = length xs"
  by (induction xs arbitrary: acc) simp_all

lemma length_cumsum [simp]: "length (cumsum s) = length s"
  by (simp add: cumsum_def split: list.split)

lemma accumulate_nth_0: "xs \<noteq> [] \<Longrightarrow> accumulate acc xs ! 0 = np_add acc (xs ! 0)"
  by (cases xs) simp_all

lemma accumulate_nth_Suc:
  "Suc i < length xs \<Longrightarrow> accumulate acc xs ! Suc i = np_add (accumulate acc xs ! i) (xs ! Suc i)"
proof (induction xs arbitrary: acc i)
  case Nil
  then show ?case by simp
next
  case (Cons x xs)
  show ?case
  proof (cases i)
    case 0
    with Cons.prems show ?thesis by (simp add: accumulate_nth_0)
  next
    case (Suc k)
    with Cons.prems have "Suc k < length xs" by simp
    from Cons.IH [OF this, of "np_add acc x"] Suc show ?thesis by simp
  qed
qed

lemma cumsum_nth_0: "s \<noteq> [] \<Longrightarrow> cumsum s ! 0 = s ! 0"
  by (cases s) (simp_all add: cumsum_def)

lemma cumsum_nth_Suc:
  assumes "Suc i < length s"
  shows "cumsum s ! Suc i = np_add (cumsum s ! i) (s ! Suc i)"
proof (cases s)
  case Nil
  with assms show ?thesis by simp
next
  case (Cons x xs)
  show ?thesis
  proof (cases i)
    case 0
    with assms Cons show ?thesis by (simp add: cumsum_def accumulate_nth_0)
  next
    case (Suc k)
    with assms Cons have "Suc k < length xs" by simp
    from accumulate_nth_Suc [OF this, of x] Suc Cons show ?thesis
      by (simp add: cumsum_def)
  qed
qed



lemma rnd_1 [simp]: "rnd 1 = 1"
  by (simp add: rnd_def ulp_exp_def ilog2_def compute_bitlen round_even_def Let_def)

lemma is_double_1 [simp]: "is_double 1"
  by (simp add: is_double_iff)

lemma sum_list_sort: "sum_list (sort xs) = sum_list (xs :: real list)"
  by (metis mset_sort sum_mset_sum_list)

lemma desc_rev_sort: "sorted_wrt (\<ge>) (rev (sort (xs :: real list)))"
  by (simp add: sorted_wrt_rev)

lemma mset_rev_sort: "mset (rev (sort xs)) = mset (xs :: real list)"
  by simp

lemma set_rev_sort_abs: "set (rev (sort (map abs v))) = abs ` set (v :: real list)"
  by simp

lemma is_double_rnd_unit:
  assumes "0 \<le> rnd x" and "rnd x \<le> 1"
  shows "is_double (rnd x)"
proof -
  have "(1::real) < 2 ^ 1024" by simp
  with assms have "\<bar>rnd x\<bar> < 2 ^ 1024" by linarith
  then show ?thesis by (simp add: is_double_iff)
qed

text \<open>The quotient of a non-negative double by the positive float sum.\<close>

lemma quotient_cases:
  assumes S: "nonneg_float S" and "S \<noteq> Val 0"
  obtains s where "S = Val s" and "0 < s" and "\<And>d. np_divide (Val d) S = fl64 (d / s)"
  | "S = PInf" and "\<And>d. np_divide (Val d) S = Val 0"
proof (cases S)
  case (Val s)
  with assms have "0 < s" by (cases "s = 0") simp_all
  then show ?thesis using Val that(1) by simp
qed (use assms that in auto)

lemma percents_exist:
  assumes dbl: "\<forall>x \<in> set v. is_double x" and nz: "\<exists>x \<in> set v. x \<noteq> 0"
  defines "ds \<equiv> rev (sort (map abs v))"
  defines "S \<equiv> np_sum (map Val ds)"
  shows "nonneg_float S \<and> S \<noteq> Val 0 \<and>
    (\<exists>ps. map (\<lambda>x. np_divide (Val x) S) ds = map Val ps
       \<and> length ps = length v
       \<and> (\<forall>p \<in> set ps. 0 \<le> p \<and> p \<le> 1 \<and> is_double p)
       \<and> sorted_wrt (\<ge>) ps)"
proof -
  have nn: "\<forall>x \<in> set (map Val ds). nonneg_float x"
    using dbl by (auto simp: ds_def is_double_abs)
  have S: "nonneg_float S" unfolding S_def by (rule np_sum_nonneg [OF nn])
  have ge: "np_ge S (Val d)" if "d \<in> set ds" for d
    unfolding S_def using that by (intro np_sum_ge [OF nn]) simp
  from nz obtain x where "x \<in> set v" "x \<noteq> 0" by blast
  then have "\<bar>x\<bar> \<in> set ds" "0 < \<bar>x\<bar>" by (simp_all add: ds_def)
  with ge [of "\<bar>x\<bar>"] have S0: "S \<noteq> Val 0" by auto
  have desc: "sorted_wrt (\<ge>) ds" unfolding ds_def by (rule desc_rev_sort)
  have d0: "0 \<le> d" if "d \<in> set ds" for d using that by (auto simp: ds_def)
  from S S0 show ?thesis
  proof (cases rule: quotient_cases)
    case (1 s)
    let ?ps = "map (\<lambda>d. rnd (d / s)) ds"
    have q: "0 \<le> d / s \<and> d / s \<le> 1" if "d \<in> set ds" for d
      using ge [OF that] d0 [OF that] 1(1,2) by simp
    have r: "0 \<le> rnd (d / s) \<and> rnd (d / s) \<le> 1" if "d \<in> set ds" for d
      using q [OF that] rnd_nonneg [of "d / s"] rnd_mono [of "d / s" 1] by simp
    have f: "fl64 (d / s) = Val (rnd (d / s))" if "d \<in> set ds" for d
      using fl64_nonneg_cases [of "d / s"] q [OF that] r [OF that] by auto
    have "map (\<lambda>x. np_divide (Val x) S) ds = map Val ?ps"
      using 1(3) f by simp
    moreover have "length ?ps = length v" by (simp add: ds_def)
    moreover have "\<forall>p \<in> set ?ps. 0 \<le> p \<and> p \<le> 1 \<and> is_double p"
      using r by (auto intro: is_double_rnd_unit)
    moreover have "sorted_wrt (\<ge>) ?ps"
    proof -
      have "sorted_wrt (\<lambda>x y. rnd (x / s) \<ge> rnd (y / s)) ds"
      proof (rule sorted_wrt_mono_rel [OF _ desc])
        fix x y assume "x \<in> set ds" "y \<in> set ds" "x \<ge> y"
        then show "rnd (y / s) \<le> rnd (x / s)"
          using q [of y] 1(2) by (intro rnd_mono) (simp_all add: divide_right_mono)
      qed
      then show ?thesis by (simp add: sorted_wrt_map)
    qed
    ultimately show ?thesis using S S0 by blast
  next
    case 2
    let ?ps = "map (\<lambda>d. 0 :: real) ds"
    have "map (\<lambda>x. np_divide (Val x) S) ds = map Val ?ps"
      using 2(2) by simp
    moreover have "length ?ps = length v" by (simp add: ds_def)
    moreover have "\<forall>p \<in> set ?ps. 0 \<le> p \<and> p \<le> 1 \<and> is_double p" by auto
    moreover have "sorted_wrt (\<ge>) ?ps" by (simp add: sorted_wrt_map sorted_wrt_iff_nth_less)
    ultimately show ?thesis using S S0 by blast
  qed
qed

subsection \<open>The contract in binary64\<close>

lemmas fl_eval = fl64_def rnd_def ulp_exp_def ilog2_def compute_bitlen round_even_def Let_def

lemma pairwise_sum_short: "length a < 8 \<Longrightarrow> pairwise_sum add zero a = foldl add zero a"
  by (simp add: pairwise_sum.simps)

lemma percvar_unfold:
  "percvar v =
     Inr (map (\<lambda>x. np_divide (Val x) (np_sum (map Val (rev (sort (map abs v)))))) (rev (sort (map abs v))),
          cumsum (map (\<lambda>x. np_divide (Val x) (np_sum (map Val (rev (sort (map abs v)))))) (rev (sort (map abs v)))))"
  by (simp add: percvar_def Let_def)

lemma percvar_321:
  "percvar [3, 2, 1] =
     Inr ([Val (1/2), Val (6004799503160661 / 2^54), Val (6004799503160661 / 2^55)],
          [Val (1/2), Val (3752999689475413 / 2^52), Val (9007199254740991 / 2^53)])"
  by (simp add: percvar_def np_sum_def pairwise_sum_short cumsum_def fl_eval)

text \<open>
  Claim C1 reads: for every non-empty vector \<open>v\<close> whose absolute values have a non-zero
  sum, \<open>percents[i]\<close> equals the \<open>i\<close>-th largest absolute value divided by the sum of all
  absolute values, and \<open>cumulative[i]\<close> equals \<open>percents[0] + ... + percents[i]\<close>. The
  quotient is a binary64 quotient: at \<open>v = [3, 2, 1]\<close> the second percent is
  \<open>0.3333333333333333\<close>, which is not \<open>2/6\<close>.
\<close>

theorem percvar_quotient_counterexample:
  "percvar [3, 2, 1] =
     Inr ([Val (1/2), Val (6004799503160661 / 2^54), Val (6004799503160661 / 2^55)],
          [Val (1/2), Val (3752999689475413 / 2^52), Val (9007199254740991 / 2^53)])
   \<and> [Val (1/2), Val (6004799503160661 / 2^54), Val (6004799503160661 / 2^55)] ! 1
       \<noteq> Val (rev (sort (map abs [3, 2, 1])) ! 1 / sum_list (map abs [3, 2, 1]))"
  using percvar_321 by simp

text \<open>
  Claim C1, amended: for every non-empty vector \<open>v\<close> of finite binary64 numbers with a
  non-zero entry, \<open>percvar v\<close> returns \<open>(percents, cumulative)\<close>, both as long as \<open>v\<close>, where
  \<open>percents[i]\<close> is the binary64 quotient of the \<open>i\<close>-th largest absolute value of \<open>v\<close>
  (entry \<open>i\<close> of the descending rearrangement \<open>ds\<close>) by \<open>S\<close>, the binary64 value of \<open>np.sum\<close>
  over \<open>ds\<close>, which is positive (and \<open>percents[i]\<close> is \<open>0.0\<close> if that sum has overflowed to
  infinity); \<open>cumulative[0]\<close> is \<open>percents[0]\<close> and \<open>cumulative[i+1]\<close> is the binary64 sum
  of \<open>cumulative[i]\<close> and \<open>percents[i+1]\<close>.
\<close>

theorem percvar_float_contract:
  assumes "\<forall>x \<in> set v. is_double x" and "v \<noteq> []" and "\<exists>x \<in> set v. x \<noteq> 0"
  shows "\<exists>ds S ps cs.
      mset ds = mset (map abs v) \<and> sorted_wrt (\<ge>) ds
    \<and> S = np_sum (map Val ds)
    \<and> percvar v = Inr (ps, cs) \<and> length ps = length v \<and> length cs = length v
    \<and> ((\<exists>s. 0 < s \<and> S = Val s \<and> (\<forall>i < length v. ps ! i = fl64 (ds ! i / s)))
        \<or> (S = PInf \<and> (\<forall>i < length v. ps ! i = Val 0)))
    \<and> cs ! 0 = ps ! 0
    \<and> (\<forall>i. Suc i < length v \<longrightarrow> cs ! Suc i = np_add (cs ! i) (ps ! Suc i))"
proof (intro exI conjI)
  let ?ds = "rev (sort (map abs v))"
  let ?S = "np_sum (map Val ?ds)"
  let ?ps = "map (\<lambda>x. np_divide (Val x) ?S) ?ds"
  show "mset ?ds = mset (map abs v)" by (rule mset_rev_sort)
  show "sorted_wrt (\<ge>) ?ds" by (rule desc_rev_sort)
  show "?S = np_sum (map Val ?ds)" ..
  show "percvar v = Inr (?ps, cumsum ?ps)" by (rule percvar_unfold)
  show "length ?ps = length v" by simp
  show "length (cumsum ?ps) = length v" by simp
  from percents_exist [OF assms(1,3)] have S: "nonneg_float ?S" "?S \<noteq> Val 0" by simp_all
  from S show "(\<exists>s. 0 < s \<and> ?S = Val s \<and> (\<forall>i < length v. ?ps ! i = fl64 (?ds ! i / s)))
        \<or> (?S = PInf \<and> (\<forall>i < length v. ?ps ! i = Val 0))"
  proof (cases rule: quotient_cases)
    case (1 s)
    then have "0 < s \<and> ?S = Val s \<and> (\<forall>i < length v. ?ps ! i = fl64 (?ds ! i / s))" by simp
    then show ?thesis by blast
  next
    case 2
    then have "?S = PInf \<and> (\<forall>i < length v. ?ps ! i = Val 0)" by simp
    then show ?thesis by blast
  qed
  have ne: "?ps \<noteq> []" using assms(2) by (simp flip: length_greater_0_conv)
  show "cumsum ?ps ! 0 = ?ps ! 0" by (rule cumsum_nth_0 [OF ne])
  show "\<forall>i. Suc i < length v \<longrightarrow> cumsum ?ps ! Suc i = np_add (cumsum ?ps ! i) (?ps ! Suc i)"
    by (intro allI impI cumsum_nth_Suc) simp
qed

lemma percvar_1_m3:
  "percvar [1, - 3] = Inr ([Val (3/4), Val (1/4)], [Val (3/4), Val 1])"
  by (simp add: percvar_def np_sum_def pairwise_sum_short cumsum_def fl_eval)

lemma is_double_1_m3: "\<forall>x \<in> set [1, - 3 :: real]. is_double x"
  by (simp add: is_double_def fl_eval)

theorem percvar_float_contract_witness:
  "is_double 1 \<and> is_double (- 3) \<and> [1, - 3 :: real] \<noteq> [] \<and> (\<exists>x \<in> set [1, - 3 :: real]. x \<noteq> 0)
   \<and> percvar [1, - 3] = Inr ([Val (3/4), Val (1/4)], [Val (3/4), Val 1])
   \<and> (\<exists>ds S ps cs.
      mset ds = mset (map abs [1, - 3 :: real]) \<and> sorted_wrt (\<ge>) ds
    \<and> S = np_sum (map Val ds)
    \<and> percvar [1, - 3] = Inr (ps, cs) \<and> length ps = length [1, - 3 :: real] \<and> length cs = length [1, - 3 :: real]
    \<and> ((\<exists>s. 0 < s \<and> S = Val s \<and> (\<forall>i < length [1, - 3 :: real]. ps ! i = fl64 (ds ! i / s)))
        \<or> (S = PInf \<and> (\<forall>i < length [1, - 3 :: real]. ps ! i = Val 0)))
    \<and> cs ! 0 = ps ! 0
    \<and> (\<forall>i. Suc i < length [1, - 3 :: real] \<longrightarrow> cs ! Suc i = np_add (cs ! i) (ps ! Suc i)))"
proof -
  have h1: "\<forall>x \<in> set [1, - 3 :: real]. is_double x" by (rule is_double_1_m3)
  have h2: "[1, - 3 :: real] \<noteq> []" by simp
  have h3: "\<exists>x \<in> set [1, - 3 :: real]. x \<noteq> 0" by simp
  from h1 have d: "is_double 1" "is_double (- 3)" by simp_all
  from percvar_float_contract [OF h1 h2 h3] d h2 h3 percvar_1_m3 show ?thesis by blast
qed

subsection \<open>Invariants, degenerate inputs and the selector on the cumulative vector\<close>




text \<open>
  Claim C5 reads: \<open>percvar\<close> fails with an InvalidInput-class error when the input vector is
  empty. The source does not check its input, and no NumPy call in it raises on an empty
  vector: the claim as stated is false at \<open>v = []\<close>.
\<close>

theorem percvar_empty_no_error:
  "\<not> isl (percvar []) \<and> percvar [] \<noteq> Inl InvalidInput"
  by (simp add: percvar_def)

text \<open>
  Claim C5, amended: on the empty vector \<open>percvar\<close> raises no error and returns a pair of
  empty vectors.
\<close>

theorem percvar_empty: "percvar [] = Inr ([], [])"
  by (simp add: percvar_def cumsum_def)

lemma accumulate_NaN: "accumulate NaN xs = replicate (length xs) NaN"
  by (induction xs) simp_all

lemma cumsum_NaN: "cumsum (replicate n NaN) = replicate n NaN"
  by (cases n) (simp_all add: cumsum_def accumulate_NaN)

lemma sort_zeros: "\<forall>x \<in> set v. x = (0::real) \<Longrightarrow> rev (sort (map abs v)) = replicate (length v) 0"
proof -
  assume z: "\<forall>x \<in> set v. x = (0::real)"
  then have "map abs v = replicate (length v) 0"
    by (induction v) simp_all
  moreover have "sort (replicate n (0::real)) = replicate n 0" for n
    by (simp add: sorted_sort_id)
  ultimately show ?thesis by simp
qed

text \<open>
  Claim C6 reads: for every non-empty all-zero vector, \<open>percvar\<close> fails with a
  DivisionByZero-class error. The quotient \<open>s/np.sum(s)\<close> is NumPy's, which raises nothing
  on \<open>0/0\<close>: the claim as stated is false at \<open>v = [0]\<close>.
\<close>

theorem percvar_all_zero_no_error:
  "percvar [0] = Inr ([NaN], [NaN]) \<and> \<not> isl (percvar [0])
   \<and> percvar [0] \<noteq> Inl DivisionByZero"
  by (simp add: percvar_def np_sum_def pairwise_sum_short cumsum_def Let_def)

text \<open>
  Claim C6, amended: for every non-empty all-zero vector of length \<open>n\<close>, \<open>percvar\<close> raises
  no error and returns two vectors of length \<open>n\<close> whose entries are all \<open>nan\<close>.
\<close>

theorem percvar_all_zero:
  assumes "v \<noteq> []" and "\<forall>x \<in> set v. x = 0"
  shows "percvar v = Inr (replicate (length v) NaN, replicate (length v) NaN)"
proof -
  have "np_sum (map Val (replicate (length v) 0)) = Val 0"
    by (rule np_sum_zeros) simp
  then have "map (\<lambda>x. np_divide (Val x) (np_sum (map Val (replicate (length v) 0)))) (replicate (length v) 0)
      = replicate (length v) NaN"
    by simp
  then show ?thesis
    unfolding percvar_def Let_def sort_zeros [OF assms(2)] by (simp only: cumsum_NaN)
qed

theorem percvar_all_zero_witness:
  "[0, 0 :: real] \<noteq> [] \<and> set [0, 0 :: real] = {0}
   \<and> percvar [0, 0] = Inr ([NaN, NaN], [NaN, NaN])"
proof -
  have h1: "[0, 0 :: real] \<noteq> []" by simp
  have h2: "\<forall>x \<in> set [0, 0 :: real]. x = 0" by simp
  from percvar_all_zero [OF h1 h2] h1 h2 show ?thesis by (simp add: numeral_2_eq_2)
qed






subsection \<open>Applying \<open>percvar\<close> to its own percents; scaling by 0.1\<close>

lemma percvar_percents_321:
  "percvar [1/2, 6004799503160661 / 2^54, 6004799503160661 / 2^55] =
     Inr ([Val (4503599627370497 / 2^53), Val (3002399751580331 / 2^53), Val (3002399751580331 / 2^54)],
          [Val (4503599627370497 / 2^53), Val (1876499844737707 / 2^51), Val (4503599627370497 / 2^52)])"
  by (simp add: percvar_def np_sum_def pairwise_sum_short cumsum_def fl_eval)

text \<open>
  Claim C8 reads: applying \<open>percvar\<close> to the percents it returned for \<open>v\<close> returns these
  percents again. At \<open>v = [3, 2, 1]\<close> the percents are
  \<open>[0.5, 0.3333333333333333, 0.16666666666666666]\<close>, whose \<open>np.sum\<close> is
  \<open>0.9999999999999999\<close>, and the second application returns
  \<open>[0.5000000000000001, 0.33333333333333337, 0.16666666666666669]\<close>.
\<close>

theorem percvar_idempotent_counterexample:
  "percvar [3, 2, 1] =
     Inr (map Val [1/2, 6004799503160661 / 2^54, 6004799503160661 / 2^55],
          [Val (1/2), Val (3752999689475413 / 2^52), Val (9007199254740991 / 2^53)])
   \<and> percvar [1/2, 6004799503160661 / 2^54, 6004799503160661 / 2^55] =
     Inr ([Val (4503599627370497 / 2^53), Val (3002399751580331 / 2^53), Val (3002399751580331 / 2^54)],
          [Val (4503599627370497 / 2^53), Val (1876499844737707 / 2^51), Val (4503599627370497 / 2^52)])
   \<and> [Val (4503599627370497 / 2^53), Val (3002399751580331 / 2^53), Val (3002399751580331 / 2^54)]
       \<noteq> map Val [1/2, 6004799503160661 / 2^54, 6004799503160661 / 2^55]"
  using percvar_321 percvar_percents_321 by simp

lemma percvar_sorted_nonneg:
  assumes nonneg: "\<forall>x \<in> set ps. 0 \<le> x" and desc: "sorted_wrt (\<ge>) ps"
  shows "percvar ps =
     Inr (map (\<lambda>p. np_divide (Val p) (np_sum (map Val ps))) ps,
          cumsum (map (\<lambda>p. np_divide (Val p) (np_sum (map Val ps))) ps))"
proof -
  have a: "map abs ps = ps"
    using nonneg by (intro map_idI) simp
  have "sort ps = rev ps"
  proof (rule properties_for_sort)
    show "mset (rev ps) = mset ps" by simp
    show "sorted (rev ps)" using desc by (simp add: sorted_wrt_rev)
  qed
  then have r: "rev (sort (map abs ps)) = ps" by (simp add: a)
  show ?thesis by (simp only: percvar_unfold r)
qed

text \<open>
  Claim C8, amended: for every non-empty vector \<open>v\<close> of finite binary64 numbers with a
  non-zero entry, applying \<open>percvar\<close> to the percents it returned for \<open>v\<close> leaves their
  order as it is and divides each of them by \<open>np.sum(percents)\<close> in binary64; the result
  is the percents again, with the same cumulative vector, whenever \<open>np.sum(percents)\<close> is
  exactly \<open>1.0\<close>.
\<close>

theorem percvar_float_idempotent:
  assumes "\<forall>x \<in> set v. is_double x" and "v \<noteq> []" and "\<exists>x \<in> set v. x \<noteq> 0"
  shows "\<exists>ps cs. percvar v = Inr (map Val ps, cs)
    \<and> percvar ps =
         Inr (map (\<lambda>p. np_divide (Val p) (np_sum (map Val ps))) ps,
              cumsum (map (\<lambda>p. np_divide (Val p) (np_sum (map Val ps))) ps))
    \<and> (np_sum (map Val ps) = Val 1 \<longrightarrow> percvar ps = Inr (map Val ps, cs))"
proof -
  let ?ds = "rev (sort (map abs v))"
  let ?S = "np_sum (map Val ?ds)"
  from percents_exist [OF assms(1,3)] obtain ps
    where eq: "map (\<lambda>x. np_divide (Val x) ?S) ?ds = map Val ps"
      and unit: "\<forall>p \<in> set ps. 0 \<le> p \<and> p \<le> 1 \<and> is_double p"
      and desc: "sorted_wrt (\<ge>) ps"
    by blast
  have pv: "percvar v = Inr (map Val ps, cumsum (map Val ps))"
    by (simp only: percvar_unfold eq)
  have nonneg: "\<forall>x \<in> set ps. 0 \<le> x" using unit by simp
  note again = percvar_sorted_nonneg [OF nonneg desc]
  have "percvar ps = Inr (map Val ps, cumsum (map Val ps))" if "np_sum (map Val ps) = Val 1"
  proof -
    have "map (\<lambda>p. np_divide (Val p) (np_sum (map Val ps))) ps = map Val ps"
      using unit by (simp add: that fl64_double)
    then show ?thesis by (simp only: again)
  qed
  with pv again show ?thesis by blast
qed

lemma percvar_3_1:
  "percvar [3, 1] = Inr (map Val [3/4, 1/4], [Val (3/4), Val 1])"
  by (simp add: percvar_def np_sum_def pairwise_sum_short cumsum_def fl_eval)

theorem percvar_float_idempotent_witness:
  "is_double 3 \<and> is_double 1 \<and> [3, 1 :: real] \<noteq> [] \<and> (\<exists>x \<in> set [3, 1 :: real]. x \<noteq> 0)
   \<and> percvar [3, 1] = Inr (map Val [3/4, 1/4], [Val (3/4), Val 1])
   \<and> np_sum (map Val [3/4, 1/4]) = Val 1
   \<and> percvar [3/4, 1/4] = Inr (map Val [3/4, 1/4], [Val (3/4), Val 1])"
proof -
  have h1: "\<forall>x \<in> set [3, 1 :: real]. is_double x" by (simp add: is_double_def fl_eval)
  have h2: "[3, 1 :: real] \<noteq> []" by simp
  have h3: "\<exists>x \<in> set [3, 1 :: real]. x \<noteq> 0" by simp
  from h1 have d: "is_double 3" "is_double 1" by simp_all
  have s: "np_sum (map Val [3/4, 1/4]) = Val 1"
    by (simp add: np_sum_def pairwise_sum_short fl_eval)
  from percvar_float_idempotent [OF h1 h2 h3] obtain ps cs
    where 1: "percvar [3, 1] = Inr (map Val ps, cs)"
      and 2: "np_sum (map Val ps) = Val 1 \<longrightarrow> percvar ps = Inr (map Val ps, cs)"
    by blast
  from 1 percvar_3_1 have "map Val ps = map Val [3/4, 1/4]" and cs: "cs = [Val (3/4), Val 1]" by simp_all
  then have ps: "ps = [3/4, 1/4]" by (intro map_injective [of Val]) (simp_all add: inj_def)
  from 2 s have "percvar [3/4, 1/4] = Inr (map Val [3/4, 1/4], [Val (3/4), Val 1])"
    unfolding ps cs by simp
  with d h2 h3 percvar_3_1 s show ?thesis by blast
qed

text \<open>
  Claim C4 reads: for every non-zero scalar \<open>c\<close>, \<open>percvar v\<close> and \<open>percvar (c * v)\<close> return
  identical outputs. For \<open>v = [3, 1]\<close> and \<open>c = 0.1\<close> the vector \<open>c * v\<close> is
  \<open>[0.30000000000000004, 0.1]\<close> and its first percent is \<open>0.7500000000000001\<close>, while the
  first percent of \<open>v\<close> is \<open>0.75\<close>.
\<close>

theorem percvar_scale_counterexample:
  "rnd (1/10) = 3602879701896397 / 2^55
   \<and> fl64 (3602879701896397 / 2^55 * 3) = Val (1351079888211149 / 2^52)
   \<and> fl64 (3602879701896397 / 2^55 * 1) = Val (3602879701896397 / 2^55)
   \<and> percvar [3, 1] = Inr ([Val (3/4), Val (1/4)], [Val (3/4), Val 1])
   \<and> percvar [1351079888211149 / 2^52, 3602879701896397 / 2^55]
        = Inr ([Val (6755399441055745 / 2^53), Val (1/4)], [Val (6755399441055745 / 2^53), Val 1])
   \<and> percvar [1351079888211149 / 2^52, 3602879701896397 / 2^55] \<noteq> percvar [3, 1]"
  by (simp add: percvar_def np_sum_def pairwise_sum_short cumsum_def fl_eval)

subsection \<open>Scaling by a power of two\<close>

lemma min_normal_pos: "0 < min_normal"
  by (simp only: min_normal_def pow2_pos)

lemma rnd_pow2:
  assumes "- 1074 \<le> j"
  shows "rnd (2 powi j) = 2 powi j"
proof -
  let ?x = "(2::real) powi j"
  define e where "e = max (- 1074) (j - 52)"
  have x: "0 < ?x" by simp
  have ej: "e \<le> j" and e0: "- 1074 \<le> e" using assms by (simp_all add: e_def)
  have e: "ulp_exp ?x = e"
  proof (rule ulp_exp_eqI [OF x e0])
    have "j < e + 53" by (simp add: e_def)
    then show "?x < 2 powi (e + 53)" by (rule power_int_strict_increasing) simp
    show "- 1074 < e \<longrightarrow> 2 powi (e + 52) \<le> ?x"
    proof
      assume "- 1074 < e"
      then have "e + 52 \<le> j" by (simp add: e_def split: if_splits)
      then show "2 powi (e + 52) \<le> ?x" by (rule pow2_mono)
    qed
  qed
  have "?x / 2 powi e = 2 powi (j - e)"
    by (rule power_int_diff [symmetric]) simp
  also have "\<dots> = of_int (2 ^ nat (j - e))"
    using ej by (simp add: pow2_nat)
  finally have q: "?x / 2 powi e = of_int (2 ^ nat (j - e))" .
  have "round_even (?x / 2 powi e) = 2 ^ nat (j - e)"
    by (simp only: q round_even_of_int)
  moreover have "?x \<noteq> 0" by simp
  ultimately have "rnd ?x = of_int (2 ^ nat (j - e)) * 2 powi e"
    by (simp only: rnd_def e if_False)
  also have "\<dots> = ?x / 2 powi e * 2 powi e" by (simp only: q)
  also have "\<dots> = ?x" by simp
  finally show ?thesis .
qed

lemma rnd_min_normal: "rnd min_normal = min_normal"
  unfolding min_normal_def by (rule rnd_pow2) simp

lemma rnd_ge_min_normal: "min_normal \<le> x \<Longrightarrow> min_normal \<le> rnd x"
  using rnd_mono [of min_normal x] min_normal_pos by (simp add: rnd_min_normal)

lemma rnd_scale_normal:
  "min_normal \<le> x \<Longrightarrow> min_normal \<le> 2 powi t * x \<Longrightarrow> rnd (2 powi t * x) = 2 powi t * rnd x"
  unfolding min_normal_def by (rule rnd_scale)

lemma sort_scale:
  assumes "0 < (k :: real)"
  shows "sort (map ((*) k) xs) = map ((*) k) (sort xs)"
proof (rule properties_for_sort)
  show "mset (map ((*) k) (sort xs)) = mset (map ((*) k) xs)"
    by simp
  have "sorted_wrt (\<lambda>x y. k * x \<le> k * y) (sort xs)"
    by (rule sorted_wrt_mono_rel [OF _ sorted_sort [of xs]]) (use assms in simp)
  then show "sorted (map ((*) k) (sort xs))"
    by (simp add: sorted_wrt_map)
qed

lemma np_add_PInf: "nonneg_float a \<Longrightarrow> np_add PInf a = PInf \<and> np_add a PInf = PInf"
  by (cases a) auto

lemma scaled_add:
  assumes k: "k = 2 powi t" and 1: "scaled k u w" and 2: "scaled k x y"
  shows "scaled k (np_add u x) (np_add w y)"
proof -
  from 1 2 have nn: "nonneg_float u" "nonneg_float w" "nonneg_float x" "nonneg_float y"
    by (simp_all add: scaled_def)
  have n1: "nonneg_float (np_add u x)" and n2: "nonneg_float (np_add w y)"
    using nn by (simp_all add: np_add_nonneg)
  show ?thesis
  proof (cases "u = PInf \<or> w = PInf \<or> x = PInf \<or> y = PInf")
    case True
    then have "np_add u x = PInf \<or> np_add w y = PInf"
      using nn np_add_PInf by metis
    with n1 n2 show ?thesis by (auto simp: scaled_def)
  next
    case False
    with 1 2 obtain a b where u: "u = Val a" and w: "w = Val (k * a)"
      and a: "a = 0 \<or> min_normal \<le> a \<and> min_normal \<le> k * a"
      and x: "x = Val b" and y: "y = Val (k * b)"
      and b: "b = 0 \<or> min_normal \<le> b \<and> min_normal \<le> k * b"
      by (auto simp: scaled_def)
    from nn u x have a0: "0 \<le> a" and b0: "0 \<le> b" by simp_all
    have kpos: "0 < k" by (simp add: k)
    have sum: "np_add u x = fl64 (a + b)" "np_add w y = fl64 (k * (a + b))"
      by (simp_all add: u w x y distrib_left)
    show ?thesis
    proof (cases "a + b = 0")
      case True
      then show ?thesis by (simp add: sum scaled_def)
    next
      case False
      with a0 b0 have ab: "a \<noteq> 0 \<or> b \<noteq> 0" by auto
      have lo: "min_normal \<le> a + b"
        using ab a b a0 b0 by auto
      have ka: "0 \<le> k * a" and kb: "0 \<le> k * b" using kpos a0 b0 by simp_all
      have "min_normal \<le> k * a + k * b"
        using ab a b ka kb by auto
      then have lo': "min_normal \<le> k * (a + b)"
        by (simp only: distrib_left)
      have sc: "rnd (k * (a + b)) = k * rnd (a + b)"
        unfolding k using lo lo' [unfolded k] by (rule rnd_scale_normal)
      have s0: "0 \<le> a + b" "0 \<le> k * (a + b)" using a0 b0 kpos by simp_all
      have r1: "min_normal \<le> rnd (a + b)"
        by (rule rnd_ge_min_normal [OF lo])
      have r2: "min_normal \<le> k * rnd (a + b)"
        using rnd_ge_min_normal [OF lo'] by (simp only: sc)
      from fl64_nonneg_cases [OF s0(1)] fl64_nonneg_cases [OF s0(2)]
      have "fl64 (a + b) = PInf \<or> fl64 (k * (a + b)) = PInf
          \<or> fl64 (a + b) = Val (rnd (a + b)) \<and> fl64 (k * (a + b)) = Val (k * rnd (a + b))"
        by (auto simp: sc)
      with r1 r2 n1 n2 show ?thesis
        unfolding scaled_def sum by blast
    qed
  qed
qed

lemma np_sum_scaled:
  assumes k: "k = 2 powi t" and "list_all2 (scaled k) a a'"
  shows "scaled k (np_sum a) (np_sum a')"
proof -
  have z: "scaled k (Val 0) (Val 0)" by (simp add: scaled_def)
  have "scaled k (pairwise_sum np_add (Val 0) a) (pairwise_sum np_add (Val 0) a')"
    using assms(2) z by (rule pairwise_sum_rel) (rule scaled_add [OF k])
  with z show ?thesis unfolding np_sum_def by (rule scaled_add [OF k])
qed

text \<open>
  Claim C4, amended: for every vector \<open>v\<close> of finite binary64 numbers and every scalar \<open>c\<close>
  that is plus or minus a power of two, such that every product \<open>c * x\<close> is a binary64
  number, every non-zero entry and its product with \<open>c\<close> are normal numbers, and neither
  \<open>np.sum\<close> overflows, \<open>percvar v\<close> and \<open>percvar (c * v)\<close> return identical outputs.
\<close>

theorem percvar_scale_power_of_two:
  assumes dbl: "\<forall>x \<in> set v. is_double x \<and> is_double (c * x)"
    and c: "\<bar>c\<bar> = 2 powi t"
    and rng: "\<forall>x \<in> set v. x = 0 \<or> min_normal \<le> \<bar>x\<bar> \<and> min_normal \<le> \<bar>c * x\<bar>"
    and fin: "np_sum (map Val (rev (sort (map abs v)))) \<noteq> PInf"
    and fin': "np_sum (map Val (rev (sort (map abs (map (\<lambda>x. c * x) v))))) \<noteq> PInf"
  shows "percvar (map (\<lambda>x. c * x) v) = percvar v"
proof -
  let ?k = "\<bar>c\<bar>"
  let ?ds = "rev (sort (map abs v))"
  let ?S = "np_sum (map Val ?ds)"
  let ?S' = "np_sum (map Val (map ((*) ?k) ?ds))"
  have k: "?k = 2 powi t" by (rule c)
  have kpos: "0 < ?k" by (simp add: k)
  have "map abs (map (\<lambda>x. c * x) v) = map ((*) ?k) (map abs v)"
    by (simp add: abs_mult)
  then have ds': "rev (sort (map abs (map (\<lambda>x. c * x) v))) = map ((*) ?k) ?ds"
    by (simp only: sort_scale [OF kpos] rev_map)
  have "list_all2 (scaled ?k) (map Val ?ds) (map Val (map ((*) ?k) ?ds))"
  proof (simp add: list_all2_conv_all_nth, intro allI impI)
    fix i assume i: "i < length v"
    then have "?ds ! i \<in> set ?ds" by (intro nth_mem) simp
    then obtain x where x: "x \<in> set v" and d: "?ds ! i = \<bar>x\<bar>" by auto
    from dbl x have "is_double \<bar>x\<bar>" and "is_double \<bar>c * x\<bar>"
      by (simp_all add: is_double_abs)
    moreover from rng x have "\<bar>x\<bar> = 0 \<or> min_normal \<le> \<bar>x\<bar> \<and> min_normal \<le> ?k * \<bar>x\<bar>"
      by (auto simp: abs_mult)
    ultimately show "scaled ?k (Val (?ds ! i)) (Val (?k * ?ds ! i))"
      unfolding d by (simp add: scaled_def abs_mult)
  qed
  from np_sum_scaled [OF k this] have sc: "scaled ?k ?S ?S'" .
  have "?S \<noteq> PInf" by (rule fin)
  moreover have "?S' \<noteq> PInf" using fin' unfolding ds' .
  ultimately have "?S \<noteq> PInf" "?S' \<noteq> PInf" by blast+
  with sc obtain s where S: "?S = Val s" and S': "?S' = Val (?k * s)"
    by (auto simp: scaled_def)
  have "np_divide (Val (?k * d)) (Val (?k * s)) = np_divide (Val d) (Val s)" for d
    using kpos by (simp add: zero_less_mult_iff)
  then have q: "np_divide (Val (?k * d)) ?S' = np_divide (Val d) ?S" for d
    by (simp only: S S')
  have "map (\<lambda>x. np_divide (Val x) ?S') (map ((*) ?k) ?ds)
      = map ((\<lambda>x. np_divide (Val x) ?S') \<circ> ((*) ?k)) ?ds"
    by (rule map_map)
  also have "(\<lambda>x. np_divide (Val x) ?S') \<circ> ((*) ?k) = (\<lambda>x. np_divide (Val x) ?S)"
    by (rule ext) (simp only: o_apply q)
  finally have "map (\<lambda>x. np_divide (Val x) ?S') (map ((*) ?k) ?ds) = map (\<lambda>x. np_divide (Val x) ?S) ?ds" .
  then show ?thesis
    by (simp only: percvar_unfold ds')
qed

theorem percvar_scale_power_of_two_witness:
  "is_double 3 \<and> is_double (- 4 * 3) \<and> is_double 1 \<and> is_double (- 4 * 1)
   \<and> \<bar>- 4 :: real\<bar> = 2 powi 2
   \<and> np_sum (map Val (rev (sort (map abs [3, 1])))) = Val 4
   \<and> np_sum (map Val (rev (sort (map abs (map (\<lambda>x. - 4 * x) [3, 1]))))) = Val 16
   \<and> map (\<lambda>x. - 4 * x) [3, 1 :: real] = [- 12, - 4]
   \<and> percvar [- 12, - 4] = percvar [3, 1]"
proof -
  have h1: "\<forall>x \<in> set [3, 1 :: real]. is_double x \<and> is_double (- 4 * x)"
    by (simp add: is_double_def fl_eval)
  have h2: "\<bar>- 4 :: real\<bar> = 2 powi 2" by simp
  have h3: "\<forall>x \<in> set [3, 1 :: real]. x = 0 \<or> min_normal \<le> \<bar>x\<bar> \<and> min_normal \<le> \<bar>- 4 * x\<bar>"
    by (simp add: min_normal_def power_int_minus field_simps)
  have s1: "np_sum (map Val (rev (sort (map abs [3, 1])))) = Val 4"
    by (simp add: np_sum_def pairwise_sum_short fl_eval)
  have s2: "np_sum (map Val (rev (sort (map abs (map (\<lambda>x. - 4 * x) [3, 1]))))) = Val 16"
    by (simp add: np_sum_def pairwise_sum_short fl_eval)
  have h4: "np_sum (map Val (rev (sort (map abs [3, 1])))) \<noteq> PInf" by (simp only: s1) simp
  have h5: "np_sum (map Val (rev (sort (map abs (map (\<lambda>x. - 4 * x) [3, 1]))))) \<noteq> PInf"
    by (simp only: s2) simp
  from h1 have d: "is_double 3" "is_double (- 4 * 3)" "is_double 1" "is_double (- 4 * 1)" by simp_all
  from percvar_scale_power_of_two [OF h1 h2 h3 h4 h5] have "percvar [- 12, - 4] = percvar [3, 1]" by simp
  with d h2 s1 s2 show ?thesis by simp
qed

subsection \<open>The worked example of the notebook\<close>

lemma pairwise_sum_unrolled_once:
  assumes "8 \<le> length a" and "length a < 16"
  shows "pairwise_sum add zero a = foldl add (tree8 add (take 8 a)) (drop 8 a)"
proof -
  have "\<not> 8 \<le> length (drop 8 a)" using assms by simp
  then have "unrolled add (take 8 a) (drop 8 a) = (take 8 a, drop 8 a)"
    by (simp only: unrolled.simps [of add "take 8 a" "drop 8 a"] if_False)
  moreover have "\<not> length a < 8" "length a \<le> 128" using assms by simp_all
  ultimately show ?thesis
    by (simp only: pairwise_sum.simps [of add zero a] if_False if_True prod.case)
qed

lemma wine_literals:
  "map rnd [4.73, 2.51, 1.45, 0.92, 0.86, 0.65, 0.55, 0.10, 0.35, 0.17, 0.29, 0.23, 0.25] = [1331376639841403 / 2 ^ 48, 1413004383087493 / 2 ^ 49, 6530219459687219 / 2 ^ 52, 8286623314361713 / 2 ^ 53, 7746191359077253 / 2 ^ 53, 5854679515581645 / 2 ^ 53, 2476979795053773 / 2 ^ 52, 3602879701896397 / 2 ^ 55, 3152519739159347 / 2 ^ 53, 6124895493223875 / 2 ^ 55, 5224175567749775 / 2 ^ 54, 8286623314361713 / 2 ^ 55, 1 / 2 ^ 2]"
  by (simp add: fl_eval)

lemma wine_sorted:
  "rev (sort (map abs ([1331376639841403 / 2 ^ 48, 1413004383087493 / 2 ^ 49, 6530219459687219 / 2 ^ 52, 8286623314361713 / 2 ^ 53, 7746191359077253 / 2 ^ 53, 5854679515581645 / 2 ^ 53, 2476979795053773 / 2 ^ 52, 3602879701896397 / 2 ^ 55, 3152519739159347 / 2 ^ 53, 6124895493223875 / 2 ^ 55, 5224175567749775 / 2 ^ 54, 8286623314361713 / 2 ^ 55, 1 / 2 ^ 2] :: real list))) = [1331376639841403 / 2 ^ 48, 1413004383087493 / 2 ^ 49, 6530219459687219 / 2 ^ 52, 8286623314361713 / 2 ^ 53, 7746191359077253 / 2 ^ 53, 5854679515581645 / 2 ^ 53, 2476979795053773 / 2 ^ 52, 3152519739159347 / 2 ^ 53, 5224175567749775 / 2 ^ 54, 1 / 2 ^ 2, 8286623314361713 / 2 ^ 55, 6124895493223875 / 2 ^ 55, 3602879701896397 / 2 ^ 55]"
  by simp

lemma wine_sum:
  "np_sum (map Val [1331376639841403 / 2 ^ 48, 1413004383087493 / 2 ^ 49, 6530219459687219 / 2 ^ 52, 8286623314361713 / 2 ^ 53, 7746191359077253 / 2 ^ 53, 5854679515581645 / 2 ^ 53, 2476979795053773 / 2 ^ 52, 3152519739159347 / 2 ^ 53, 5224175567749775 / 2 ^ 54, 1 / 2 ^ 2, 8286623314361713 / 2 ^ 55, 6124895493223875 / 2 ^ 55, 3602879701896397 / 2 ^ 55]) = Val (3676063195841167 / 2 ^ 48)"
  by (simp add: np_sum_def pairwise_sum_unrolled_once tree8_def fl_eval)

lemma wine_percents:
  "map (\<lambda>x. np_divide (Val x) (Val (3676063195841167 / 2 ^ 48))) [1331376639841403 / 2 ^ 48, 1413004383087493 / 2 ^ 49, 6530219459687219 / 2 ^ 52, 8286623314361713 / 2 ^ 53, 7746191359077253 / 2 ^ 53, 5854679515581645 / 2 ^ 53, 2476979795053773 / 2 ^ 52, 3152519739159347 / 2 ^ 53, 5224175567749775 / 2 ^ 54, 1 / 2 ^ 2, 8286623314361713 / 2 ^ 55, 6124895493223875 / 2 ^ 55, 3602879701896397 / 2 ^ 55] = [Val (3262178596854893 / 2 ^ 53), Val (6924370636875923 / 2 ^ 55), Val (8000268863322781 / 2 ^ 56), Val (5076032658108247 / 2 ^ 56), Val (4744987049970753 / 2 ^ 56), Val (7172654842979045 / 2 ^ 57), Val (6069169482520731 / 2 ^ 57), Val (3862198761604101 / 2 ^ 57), Val (400013443166139 / 2 ^ 54), Val (5517426802291573 / 2 ^ 58), Val (5076032658108247 / 2 ^ 58), Val (1875925112779135 / 2 ^ 57), Val (8827882883666517 / 2 ^ 60)]"
  by (simp add: fl_eval)

lemma wine_cumulative:
  "cumsum [Val (3262178596854893 / 2 ^ 53), Val (6924370636875923 / 2 ^ 55), Val (8000268863322781 / 2 ^ 56), Val (5076032658108247 / 2 ^ 56), Val (4744987049970753 / 2 ^ 56), Val (7172654842979045 / 2 ^ 57), Val (6069169482520731 / 2 ^ 57), Val (3862198761604101 / 2 ^ 57), Val (400013443166139 / 2 ^ 54), Val (5517426802291573 / 2 ^ 58), Val (5076032658108247 / 2 ^ 58), Val (1875925112779135 / 2 ^ 57), Val (8827882883666517 / 2 ^ 60)] = [Val (3262178596854893 / 2 ^ 53), Val (2496635628036937 / 2 ^ 52), Val (2996652431994611 / 2 ^ 52), Val (6627808946252753 / 2 ^ 53), Val (7220932327499097 / 2 ^ 53), Val (7669223255185287 / 2 ^ 53), Val (8048546347842833 / 2 ^ 53), Val (8289933770443089 / 2 ^ 53), Val (4244970246013079 / 2 ^ 52), Val (4331180039798885 / 2 ^ 52), Val (8820986100163653 / 2 ^ 53), Val (8938231419712349 / 2 ^ 53), Val (4503599627370497 / 2 ^ 52)]"
  by (simp add: cumsum_def fl_eval)

lemma wine_targets: "fl64 0.80 = Val (3602879701896397 / 2 ^ 52)" "fl64 0.95 = Val (4278419646001971 / 2 ^ 52)"
  by (simp_all add: fl_eval)

text \<open>
  Claim C9. For \<open>v = [4.73, 2.51, 1.45, 0.92, 0.86, 0.65, 0.55, 0.10, 0.35, 0.17, 0.29,
  0.23, 0.25]\<close> (the binary64 numbers these literals denote) and \<open>cumulative\<close> the second
  component of \<open>percvar v\<close>, \<open>perck cumulative 0.80 = 5\<close> and \<open>perck cumulative 0.95 = 10\<close>.
\<close>

theorem percvar_perck_wine:
  "(case percvar (map rnd [4.73, 2.51, 1.45, 0.92, 0.86, 0.65, 0.55, 0.10, 0.35, 0.17, 0.29, 0.23, 0.25]) of
      Inl e \<Rightarrow> False
    | Inr (percents, cumulative) \<Rightarrow>
        perck cumulative (fl64 0.80) = 5 \<and> perck cumulative (fl64 0.95) = 10)"
  by (simp only: percvar_unfold wine_literals wine_sorted wine_sum wine_percents wine_cumulative wine_targets)
     simp

end
